theory Spec2Isabelle
  imports Main "HOL-Library.Char_ord" "HOL-Library.Signed_Division" "HOL-Library.Monad_Syntax"
begin

section \<open>Machine integers\<close>

text \<open>
  Go's \<open>int32\<close> is modelled as \<open>int\<close> with the two's complement wrap-around written
  out by \<open>wrap32\<close>; Go's \<open>int\<close> (64 bits on the platforms the compiler is built for)
  by \<open>wrap64\<close>. Go's \<open>/\<close> and \<open>%\<close> truncate towards zero: they are \<open>sdiv\<close> and
  \<open>smod\<close> on \<open>int\<close>.
\<close>

definition wrap32 :: "int \<Rightarrow> int" where
  "wrap32 x = (x + 2147483648) mod 4294967296 - 2147483648"

definition wrap64 :: "int \<Rightarrow> int" where
  "wrap64 x = (x + 9223372036854775808) mod 18446744073709551616 - 9223372036854775808"

section \<open>The scanner (package ors)\<close>

text \<open>
  The fields of \<open>ors.Scanner\<close>. The reader \<open>r\<close> is the unread input \<open>inp\<close>; the
  writer \<open>w\<close> is the list \<open>sink\<close> of what \<open>Mark\<close> has printed, one entry per
  \<open>Fprintf\<close> call, holding its two arguments (position and message). \<open>Rval\<close> is a
  \<open>float32\<close> and is left out. \<open>ErrCnt\<close>, \<open>errPos\<close> and \<open>pos\<close> are Go \<open>int\<close>s that
  only count characters and calls; they are unbounded here.
\<close>

record Scanner =
  Ival :: int
  Id :: string
  Str :: string
  ErrCnt :: int
  ch :: char
  eot :: bool
  errPos :: int
  pos :: int
  inp :: string
  sink :: "(int \<times> string) list"

definition IdLen :: nat where
  "IdLen = 32"

definition maxExp :: int where
  "maxExp = 38"

definition stringBufSize :: nat where
  "stringBufSize = 256"

definition NewScanner :: "string \<Rightarrow> Scanner" where
  "NewScanner src = \<lparr>Ival = 0, Id = [], Str = [], ErrCnt = 0, ch = CHR 0x00, eot = False,
     errPos = 0, pos = 0, inp = src, sink = []\<rparr>"

definition Pos :: "Scanner \<Rightarrow> int" where
  "Pos s = pos s - 1"

definition Mark :: "string \<Rightarrow> Scanner \<Rightarrow> Scanner" where
  "Mark msg s =
     (let p = Pos s;
          s1 = (if p > errPos s \<and> ErrCnt s < 25 then s\<lparr>sink := sink s @ [(p, msg)]\<rparr> else s)
      in s1\<lparr>ErrCnt := ErrCnt s1 + 1, errPos := p + 4\<rparr>)"

text \<open>\<open>ReadByte\<close> at the end of the input returns the byte 0 and \<open>io.EOF\<close>.\<close>

definition nextCh :: "Scanner \<Rightarrow> Scanner" where
  "nextCh s =
     (case inp s of
        [] \<Rightarrow> s\<lparr>ch := CHR 0x00, pos := pos s + 1, eot := True\<rparr>
      | c # cs \<Rightarrow> s\<lparr>ch := c, inp := cs, pos := pos s + 1\<rparr>)"

subsection \<open>Facts about Mark and nextCh\<close>

lemma Mark_fields [simp]:
  "ErrCnt (Mark msg s) = ErrCnt s + 1"
  "errPos (Mark msg s) = Pos s + 4"
  "pos (Mark msg s) = pos s"
  "inp (Mark msg s) = inp s"
  "eot (Mark msg s) = eot s"
  "ch (Mark msg s) = ch s"
  "Ival (Mark msg s) = Ival s"
  "Id (Mark msg s) = Id s"
  "Str (Mark msg s) = Str s"
  by (simp_all add: Mark_def Let_def Pos_def)

lemma Pos_Mark [simp]: "Pos (Mark msg s) = Pos s"
  by (simp add: Pos_def)

lemma Pos_nextCh [simp]: "Pos (nextCh s) = Pos s + 1"
  by (simp add: Pos_def nextCh_def split: list.splits)

lemma Mark_sink:
  "sink (Mark msg s) =
     (if errPos s < Pos s \<and> ErrCnt s < 25 then sink s @ [(Pos s, msg)] else sink s)"
  by (simp add: Mark_def Let_def)

lemma nextCh_fields [simp]:
  "ErrCnt (nextCh s) = ErrCnt s"
  "errPos (nextCh s) = errPos s"
  "sink (nextCh s) = sink s"
  "pos (nextCh s) = pos s + 1"
  "Ival (nextCh s) = Ival s"
  "Id (nextCh s) = Id s"
  "Str (nextCh s) = Str s"
  by (simp_all add: nextCh_def split: list.splits)

lemma nextCh_pow_fields [simp]:
  "ErrCnt ((nextCh ^^ n) s) = ErrCnt s"
  "errPos ((nextCh ^^ n) s) = errPos s"
  "sink ((nextCh ^^ n) s) = sink s"
  "pos ((nextCh ^^ n) s) = pos s + int n"
  by (induction n) simp_all

lemma Pos_nextCh_pow [simp]: "Pos ((nextCh ^^ n) s) = Pos s + int n"
  by (simp add: Pos_def)

lemma ch_nextCh: "ch (nextCh s) = (case inp s of [] \<Rightarrow> CHR 0x00 | c # cs \<Rightarrow> c)"
  by (simp add: nextCh_def split: list.splits)

lemma inp_nextCh [simp]: "inp (nextCh s) = tl (inp s)"
  by (simp add: nextCh_def split: list.splits)

lemma eot_nextCh: "eot (nextCh s) = (eot s \<or> inp s = [])"
  by (simp add: nextCh_def split: list.splits)

lemma inp_nextCh_pow: "inp ((nextCh ^^ n) s) = drop n (inp s)"
  by (induction n) (simp_all add: drop_Suc tl_drop)


subsection \<open>Symbols and keywords\<close>

text \<open>\<open>type Sym int\<close> with its constants numbered by \<open>iota\<close>; the order is relevant.\<close>

type_synonym Sym = int

definition symNull :: Sym where
  "symNull = 0"

definition SymTimes :: Sym where
  "SymTimes = 1"

definition SymRdiv :: Sym where
  "SymRdiv = 2"

definition SymDiv :: Sym where
  "SymDiv = 3"

definition SymMod :: Sym where
  "SymMod = 4"

definition SymAnd :: Sym where
  "SymAnd = 5"

definition SymPlus :: Sym where
  "SymPlus = 6"

definition SymMinus :: Sym where
  "SymMinus = 7"

definition SymOr :: Sym where
  "SymOr = 8"

definition SymEql :: Sym where
  "SymEql = 9"

definition SymNeq :: Sym where
  "SymNeq = 10"

definition SymLss :: Sym where
  "SymLss = 11"

definition SymLeq :: Sym where
  "SymLeq = 12"

definition SymGtr :: Sym where
  "SymGtr = 13"

definition SymGeq :: Sym where
  "SymGeq = 14"

definition SymIn :: Sym where
  "SymIn = 15"

definition SymIs :: Sym where
  "SymIs = 16"

definition SymArrow :: Sym where
  "SymArrow = 17"

definition SymPeriod :: Sym where
  "SymPeriod = 18"

definition SymChar :: Sym where
  "SymChar = 19"

definition SymInt :: Sym where
  "SymInt = 20"

definition SymReal :: Sym where
  "SymReal = 21"

definition SymFalse :: Sym where
  "SymFalse = 22"

definition SymTrue :: Sym where
  "SymTrue = 23"

definition SymNil :: Sym where
  "SymNil = 24"

definition SymString :: Sym where
  "SymString = 25"

definition SymNot :: Sym where
  "SymNot = 26"

definition SymLparen :: Sym where
  "SymLparen = 27"

definition SymLbrak :: Sym where
  "SymLbrak = 28"

definition SymLbrace :: Sym where
  "SymLbrace = 29"

definition SymIdent :: Sym where
  "SymIdent = 30"

definition SymIf :: Sym where
  "SymIf = 31"

definition SymWhile :: Sym where
  "SymWhile = 32"

definition SymRepeat :: Sym where
  "SymRepeat = 33"

definition SymCase :: Sym where
  "SymCase = 34"

definition SymFor :: Sym where
  "SymFor = 35"

definition SymComma :: Sym where
  "SymComma = 36"

definition SymColon :: Sym where
  "SymColon = 37"

definition SymBecomes :: Sym where
  "SymBecomes = 38"

definition SymUpto :: Sym where
  "SymUpto = 39"

definition SymRparen :: Sym where
  "SymRparen = 40"

definition SymRbrak :: Sym where
  "SymRbrak = 41"

definition SymRbrace :: Sym where
  "SymRbrace = 42"

definition SymThen :: Sym where
  "SymThen = 43"

definition SymOf :: Sym where
  "SymOf = 44"

definition SymDo :: Sym where
  "SymDo = 45"

definition SymTo :: Sym where
  "SymTo = 46"

definition SymBy :: Sym where
  "SymBy = 47"

definition SymSemicolon :: Sym where
  "SymSemicolon = 48"

definition SymEnd :: Sym where
  "SymEnd = 49"

definition SymBar :: Sym where
  "SymBar = 50"

definition SymElse :: Sym where
  "SymElse = 51"

definition SymElsif :: Sym where
  "SymElsif = 52"

definition SymUntil :: Sym where
  "SymUntil = 53"

definition SymReturn :: Sym where
  "SymReturn = 54"

definition SymArray :: Sym where
  "SymArray = 55"

definition SymRecord :: Sym where
  "SymRecord = 56"

definition SymPointer :: Sym where
  "SymPointer = 57"

definition SymConst :: Sym where
  "SymConst = 58"

definition SymType :: Sym where
  "SymType = 59"

definition SymVar :: Sym where
  "SymVar = 60"

definition SymProcedure :: Sym where
  "SymProcedure = 61"

definition SymBegin :: Sym where
  "SymBegin = 62"

definition SymImport :: Sym where
  "SymImport = 63"

definition SymModule :: Sym where
  "SymModule = 64"

definition SymEot :: Sym where
  "SymEot = 65"


definition keyTab :: "string \<Rightarrow> Sym option" where
  "keyTab = map_of
     [(''ARRAY'', SymArray), (''BEGIN'', SymBegin), (''BY'', SymBy), (''CASE'', SymCase),
      (''CONST'', SymConst), (''DIV'', SymDiv), (''DO'', SymDo), (''ELSE'', SymElse),
      (''ELSIF'', SymElsif), (''END'', SymEnd), (''FALSE'', SymFalse), (''FOR'', SymFor),
      (''IF'', SymIf), (''IMPORT'', SymImport), (''IN'', SymIn), (''IS'', SymIs),
      (''MOD'', SymMod), (''MODULE'', SymModule), (''NIL'', SymNil), (''OF'', SymOf),
      (''OR'', SymOr), (''POINTER'', SymPointer), (''PROCEDURE'', SymProcedure),
      (''RECORD'', SymRecord), (''REPEAT'', SymRepeat), (''RETURN'', SymReturn),
      (''THEN'', SymThen), (''TO'', SymTo), (''TRUE'', SymTrue), (''TYPE'', SymType),
      (''UNTIL'', SymUntil), (''VAR'', SymVar), (''WHILE'', SymWhile)]"

subsection \<open>Identifiers\<close>

text \<open>
  The loop of \<open>Scanner.identifier\<close>: \<open>buf\<close> is the \<open>bytes.Buffer\<close>. The loop goes on
  while the character read is a letter or a digit; at the end of the input \<open>nextCh\<close>
  delivers the byte 0, which stops it.
\<close>

function identifier_loop :: "Scanner \<Rightarrow> string \<Rightarrow> Scanner \<times> string" where
  "identifier_loop s buf =
     (let buf1 = (if length buf < IdLen - 1 then buf @ [ch s] else buf);
          s1 = nextCh s
      in if (ch s1 < CHR ''0'' \<or> ch s1 > CHR ''9'') \<and> (ch s1 < CHR ''A'' \<or> ch s1 > CHR ''Z'')
            \<and> (ch s1 < CHR ''a'' \<or> ch s1 > CHR ''z'')
         then (s1, buf1)
         else identifier_loop s1 buf1)"
  by pat_completeness auto
termination
  by (relation "measure (\<lambda>(s, buf). length (inp s))")
     (auto simp: ch_nextCh split: list.splits)

declare identifier_loop.simps [simp del]

definition identifier_fn :: "Scanner \<Rightarrow> Sym \<times> Scanner" where
  "identifier_fn s =
     (let (s1, buf) = identifier_loop s [];
          s2 = s1\<lparr>Id := buf\<rparr>
      in case keyTab (Id s2) of Some kwSym \<Rightarrow> (kwSym, s2) | None \<Rightarrow> (SymIdent, s2))"

text \<open>A letter or a digit: the negation of the loop's exit test.\<close>

definition letterOrDigit :: "char \<Rightarrow> bool" where
  "letterOrDigit c =
     (\<not> ((c < CHR ''0'' \<or> c > CHR ''9'') \<and> (c < CHR ''A'' \<or> c > CHR ''Z'')
          \<and> (c < CHR ''a'' \<or> c > CHR ''z'')))"

subsection \<open>Numbers\<close>

text \<open>
  The first loop of \<open>Scanner.number\<close> collects up to 16 digit values in the slice \<open>d\<close>;
  a 17th digit marks "too many digits" and empties the slice.
\<close>

function number_digits :: "Scanner \<Rightarrow> int list \<Rightarrow> Scanner \<times> int list" where
  "number_digits s d =
     (let (s1, d1) = (if length d < 16 then (s, d @ [of_char (ch s) - 0x30])
                      else (Mark ''too many digits'' s, []));
          s2 = nextCh s1
      in if (ch s2 < CHR ''0'' \<or> ch s2 > CHR ''9'') \<and> (ch s2 < CHR ''A'' \<or> ch s2 > CHR ''F'')
         then (s2, d1)
         else number_digits s2 d1)"
  by pat_completeness auto
termination
  by (relation "measure (\<lambda>(s, d). length (inp s))")
     (auto simp: ch_nextCh split: list.splits if_splits)

declare number_digits.simps [simp del]

text \<open>The hex fold \<open>k = k*0x10 + h\<close> on a Go \<open>int\<close>, with no overflow check.\<close>

definition hexFold :: "int list \<Rightarrow> int" where
  "hexFold d = foldl (\<lambda>k h. wrap64 (k * 0x10 + (if h \<ge> 10 then h - 7 else h))) 0 d"

fun decimalInteger :: "int list \<Rightarrow> int \<Rightarrow> Scanner \<Rightarrow> int \<times> Scanner" where
  "decimalInteger [] k s = (k, s)"
| "decimalInteger (d # ds) k s =
     (if d < 10 then
        (if k \<le> (2147483647 - d) sdiv 10 then decimalInteger ds (wrap64 (k * 10 + d)) s
         else decimalInteger ds 0 (Mark ''too large'' s))
      else decimalInteger ds k (Mark ''bad integer'' s))"

text \<open>The fraction digits of a real literal: each one decrements the exponent \<open>e\<close>.\<close>

function fraction_loop :: "Scanner \<Rightarrow> int \<Rightarrow> Scanner \<times> int" where
  "fraction_loop s e =
     (if ch s \<ge> CHR ''0'' \<and> ch s \<le> CHR ''9'' then fraction_loop (nextCh s) (wrap64 (e - 1))
      else (s, e))"
  by pat_completeness auto
termination
  by (relation "measure (\<lambda>(s, e). length (inp s)
        + (if ch s \<ge> CHR ''0'' \<and> ch s \<le> CHR ''9'' then 1 else 0))")
     (auto simp: ch_nextCh split: list.splits)

declare fraction_loop.simps [simp del]

function scale_loop :: "Scanner \<Rightarrow> int \<Rightarrow> Scanner \<times> int" where
  "scale_loop s sf =
     (let sf1 = wrap64 (sf * 10 + (of_char (ch s) - 0x30));
          s1 = nextCh s
      in if ch s1 < CHR ''0'' \<or> ch s1 > CHR ''9'' then (s1, sf1) else scale_loop s1 sf1)"
  by pat_completeness auto
termination
  by (relation "measure (\<lambda>(s, sf). length (inp s))")
     (auto simp: ch_nextCh split: list.splits)

declare scale_loop.simps [simp del]

text \<open>
  \<open>Scanner.number\<close>. The value \<open>Rval\<close> of a real literal is not modelled; the characters
  read, the exponent and the diagnostics of the real branch are.
\<close>

definition number :: "Scanner \<Rightarrow> Sym \<times> Scanner" where
  "number s0 =
     (let (s, d) = number_digits (s0\<lparr>Ival := 0\<rparr>) []
      in if ch s = CHR ''H'' \<or> ch s = CHR ''R'' \<or> ch s = CHR ''X'' then
           (let k = hexFold d
            in if ch s = CHR ''X'' then
                 (if k < 0x100 then (SymChar, nextCh (s\<lparr>Ival := wrap32 k\<rparr>))
                  else (SymChar, nextCh ((Mark ''illegal value'' s)\<lparr>Ival := 0\<rparr>)))
               else if ch s = CHR ''R'' then (SymReal, nextCh s)
               else (SymInt, nextCh (s\<lparr>Ival := wrap32 k\<rparr>)))
         else if ch s = CHR ''.'' then
           (let s1 = nextCh s
            in if ch s1 = CHR ''.'' then
                 (let (k, s2) = decimalInteger d 0 (s1\<lparr>ch := CHR 0x7F\<rparr>)
                  in (SymInt, s2\<lparr>Ival := wrap32 k\<rparr>))
               else
                 (let (s2, e) = fraction_loop s1 0;
                      (s3, e3) =
                        (if ch s2 = CHR ''E'' \<or> ch s2 = CHR ''D'' then
                           (let s4 = nextCh s2;
                                (negE, s5) =
                                  (if ch s4 = CHR ''-'' then (True, nextCh s4)
                                   else (False, if ch s4 = CHR ''+'' then nextCh s4 else s4))
                            in if ch s5 \<ge> CHR ''0'' \<and> ch s5 \<le> CHR ''9'' then
                                 (let (s6, sf) = scale_loop s5 0
                                  in (s6, if negE then wrap64 (e - sf) else wrap64 (e + sf)))
                               else (Mark ''digit?'' s5, e))
                         else (s2, e));
                      s7 = (if e3 < 0 then s3
                            else if e3 > 0 then (if e3 \<le> maxExp then s3 else Mark ''too large'' s3)
                            else s3)
                  in (SymReal, s7)))
         else
           (let (k, s1) = decimalInteger d 0 s
            in (SymInt, s1\<lparr>Ival := wrap32 k\<rparr>)))"

text \<open>
  The characters and values of literals, for stating what \<open>number\<close> delivers: a hex
  digit is a character that keeps the digit loop going, \<open>hexValue\<close> and \<open>decValue\<close> are
  the unbounded values of a digit string.
\<close>

definition hexDigitChar :: "char \<Rightarrow> bool" where
  "hexDigitChar c = (\<not> ((c < CHR ''0'' \<or> c > CHR ''9'') \<and> (c < CHR ''A'' \<or> c > CHR ''F'')))"

definition hexDigitVal :: "char \<Rightarrow> int" where
  "hexDigitVal c = (if c \<le> CHR ''9'' then of_char c - 0x30 else of_char c - 0x37)"

definition hexValue :: "string \<Rightarrow> int" where
  "hexValue cs = foldl (\<lambda>k c. k * 16 + hexDigitVal c) 0 cs"

text \<open>
  The digit buffer holds 16 digits: the digits of a literal that are left in it at the
  end are those behind the last multiple of 17. The messages of the resets: the first
  one at position \<open>p\<close>, the others 17 characters apart, each printed under the rule of
  \<open>Mark\<close> (\<open>e\<close> is the value of \<open>errPos\<close> and \<open>c\<close> the error count before the first).
\<close>

definition keptDigits :: "string \<Rightarrow> string" where
  "keptDigits cs = drop (17 * (length cs div 17)) cs"

definition tooManyDigits :: "int \<Rightarrow> int \<Rightarrow> int \<Rightarrow> nat \<Rightarrow> (int \<times> string) list" where
  "tooManyDigits p e c m =
     map (\<lambda>j. (p + 17 * int j, ''too many digits''))
       (filter (\<lambda>j. (j = 0 \<longrightarrow> e < p) \<and> c + int j < 25) [0..<m])"

definition decDigitChar :: "char \<Rightarrow> bool" where
  "decDigitChar c = (CHR ''0'' \<le> c \<and> c \<le> CHR ''9'')"

definition decValue :: "string \<Rightarrow> int" where
  "decValue cs = foldl (\<lambda>k c. k * 10 + (of_char c - 0x30)) 0 cs"

section \<open>The code generator (package org)\<close>

text \<open>
  The fields of \<open>org.Generator\<close>. The scanner \<open>g.ors\<close> is one object that the parser and
  the generator share; it is carried in the field \<open>gors\<close>. The symbol table \<open>g.orb\<close> is
  left out: none of the functions below reads it. An \<open>int32\<close> is an integer kept in the
  range of 32 bits by \<open>wrap32\<close>.
\<close>

record Generator =
  gors :: Scanner
  PC :: int
  varSize :: int
  tdx :: int
  strx :: int
  entry :: int
  rh :: int
  frame :: int
  fixOrgP :: int
  fixOrgD :: int
  fixOrgT :: int
  check :: bool
  version :: int
  relMap :: "int list"
  code :: "int list"
  data :: "int list"
  str :: "char list"

definition maxCode :: int where
  "maxCode = 8000"

definition maxStrx :: int where
  "maxStrx = 2400"

definition maxTD :: int where
  "maxTD = 160"

definition NewGenerator :: "Scanner \<Rightarrow> Generator" where
  "NewGenerator s =
     \<lparr>gors = s, PC = 0, varSize = 0, tdx = 0, strx = 0, entry = 0, rh = 0, frame = 0,
      fixOrgP = 0, fixOrgD = 0, fixOrgT = 0, check = False, version = 0,
      relMap = [1, 9, 5, 6, 14, 13], code = replicate (nat maxCode) 0,
      data = replicate (nat maxTD) 0, str = replicate (nat maxStrx) (CHR 0x00)\<rparr>"

definition CheckRegs :: "Generator \<Rightarrow> Generator" where
  "CheckRegs g =
     (let g1 = (if rh g \<noteq> 0 then g\<lparr>gors := Mark ''Reg Stack'' (gors g), rh := 0\<rparr> else g);
          g2 = (if PC g1 \<ge> maxCode - 40
                then g1\<lparr>gors := Mark ''program too long'' (gors g1)\<rparr> else g1)
      in if frame g2 \<noteq> 0 then g2\<lparr>gors := Mark ''frame error'' (gors g2), frame := 0\<rparr> else g2)"

text \<open>
  The loop of \<open>Parser.statSequence\<close> parses one statement per round and calls
  \<open>CheckRegs\<close> behind it. The statements are not modelled: a statement sequence is the
  list of what the rounds do to the state before their call of \<open>CheckRegs\<close> (the
  statement of the round, with the handling of the semicolon of the round before).
  \<open>boundaries\<close> lists the states in which \<open>CheckRegs\<close> is called.
\<close>

fun statSequence :: "(Generator \<Rightarrow> Generator) list \<Rightarrow> Generator \<Rightarrow> Generator" where
  "statSequence [] g = g"
| "statSequence (st # sts) g = statSequence sts (CheckRegs (st g))"

fun boundaries :: "(Generator \<Rightarrow> Generator) list \<Rightarrow> Generator \<Rightarrow> Generator list" where
  "boundaries [] g = []"
| "boundaries (st # sts) g = st g # boundaries sts (CheckRegs (st g))"

subsection \<open>Type descriptors\<close>

text \<open>
  The symbol table of package orb, as far as the generator reads it when it builds a type
  descriptor. \<open>Form\<close> is an integer type of Go. A type is given with the types it is
  built from: the list \<open>Dsc\<close> holds the fields of a record in the order of the \<open>Next\<close>
  links, \<open>Base\<close> is the element type of an array or the base type of a record, and
  \<open>None\<close> is the nil pointer. Of \<open>orb.Object\<close> the name, the value and the type are kept.
\<close>

type_synonym Form = int

definition FormByte :: Form where "FormByte = 1"
definition FormBool :: Form where "FormBool = 2"
definition FormChar :: Form where "FormChar = 3"
definition FormInt :: Form where "FormInt = 4"
definition FormReal :: Form where "FormReal = 5"
definition FormSet :: Form where "FormSet = 6"
definition FormPointer :: Form where "FormPointer = 7"
definition FormNilTyp :: Form where "FormNilTyp = 8"
definition FormNoTyp :: Form where "FormNoTyp = 9"
definition FormProc :: Form where "FormProc = 10"
definition FormString :: Form where "FormString = 11"
definition FormArray :: Form where "FormArray = 12"
definition FormRecord :: Form where "FormRecord = 13"

datatype Type =
  Type (Form: Form) (Mno: int) (NOfPar: int) (Len: int) (Dsc: "Object list")
       (Base: "Type option") (Size: int)
and Object =
  Object (Name: string) (Val: int) (oType: "Type option")

text \<open>The assignment \<open>t.Len = n\<close>.\<close>

definition setLen :: "int \<Rightarrow> Type \<Rightarrow> Type" where
  "setLen n t = Type (Form t) (Mno t) (NOfPar t) n (Dsc t) (Base t) (Size t)"

text \<open>
  The assignment \<open>g.data[i] = v\<close>. Go panics on an index outside the array: a panic is
  the result \<open>None\<close>. The functions below work on the pair of the word address \<open>dcw\<close>
  and the generator.
\<close>

definition putData :: "int \<Rightarrow> int \<Rightarrow> Generator \<Rightarrow> Generator option" where
  "putData i v g =
     (if 0 \<le> i \<and> i < int (length (data g)) then Some (g\<lparr>data := (data g)[nat i := v]\<rparr>)
      else None)"

fun q :: "Type \<Rightarrow> int \<times> Generator \<Rightarrow> (int \<times> Generator) option" where
  "q (Type form mno nofpar len dsc None sz) st = Some st"
| "q (Type form mno nofpar len dsc (Some b) sz) st =
     Option.bind (q b st) (\<lambda>(dcw, g).
     Option.bind
       (putData dcw (wrap32 ((mno * 0x1000 + len) * 0x1000 + dcw - fixOrgT g)) g)
       (\<lambda>g1. Some (wrap32 (dcw + 1), g1\<lparr>fixOrgT := dcw\<rparr>)))"

text \<open>
  \<open>findPtrFlds\<close> with its two loops: over the fields of a record, and over the elements
  of an array, where \<open>i\<close> counts from 0 and \<open>n\<close> rounds are left (\<open>typ.Len\<close> rounds in
  all, none for a negative length).
\<close>

fun findPtrFlds :: "Type option \<Rightarrow> int \<Rightarrow> int \<times> Generator \<Rightarrow> (int \<times> Generator) option"
  and findPtrFlds_fields :: "Object list \<Rightarrow> int \<Rightarrow> int \<times> Generator \<Rightarrow> (int \<times> Generator) option"
  and findPtrFlds_elems ::
    "Type option \<Rightarrow> int \<Rightarrow> int \<Rightarrow> nat \<Rightarrow> int \<Rightarrow> int \<times> Generator \<Rightarrow> (int \<times> Generator) option"
where
  "findPtrFlds None off st = None"
| "findPtrFlds (Some (Type form mno nofpar len dsc base sz)) off st =
     (if form = FormPointer \<or> form = FormNilTyp then
        Option.bind (putData (fst st) off (snd st)) (\<lambda>g1. Some (wrap32 (fst st + 1), g1))
      else if form = FormRecord then findPtrFlds_fields dsc off st
      else if form = FormArray then
        (case base of
           None \<Rightarrow> None
         | Some b \<Rightarrow> findPtrFlds_elems base (Size b) 0 (nat len) off st)
      else Some st)"
| "findPtrFlds_fields [] off st = Some st"
| "findPtrFlds_fields (Object name val ty # flds) off st =
     Option.bind (findPtrFlds ty (wrap32 (val + off)) st)
       (\<lambda>st1. findPtrFlds_fields flds off st1)"
| "findPtrFlds_elems base s i 0 off st = Some st"
| "findPtrFlds_elems base s i (Suc n) off st =
     Option.bind (findPtrFlds base (wrap32 (i * s + off)) st)
       (\<lambda>st1. findPtrFlds_elems base s (i + 1) n off st1)"


text \<open>The loop \<open>for k < 3\<close> of \<open>BuildTD\<close> that fills the extension table.\<close>

function fill_loop :: "int \<Rightarrow> int \<times> Generator \<Rightarrow> (int \<times> Generator) option" where
  "fill_loop k st =
     (if k < 3 then
        Option.bind (putData (fst st) (- 1) (snd st))
          (\<lambda>g1. fill_loop (k + 1) (wrap32 (fst st + 1), g1))
      else Some st)"
  by pat_completeness auto
termination
  by (relation "measure (\<lambda>(k, st). nat (3 - k))") auto

declare fill_loop.simps [simp del]

text \<open>
  \<open>BuildTD\<close>: the result holds the type with its \<open>Len\<close> set, the new value of \<open>*dc\<close>
  and the generator.
\<close>

definition BuildTD :: "Type \<Rightarrow> int \<Rightarrow> Generator \<Rightarrow> (Type \<times> int \<times> Generator) option" where
  "BuildTD t dc g =
     (let dcw = dc sdiv 4;
          s = Size t;
          s1 = (if s \<le> 24 then 32
                else if s \<le> 56 then 64
                else if s \<le> 120 then 128
                else wrap32 (wrap32 (s + 263) sdiv 256 * 256));
          t1 = setLen dc t
      in Option.bind (putData dcw s1 g) (\<lambda>g1.
         Option.bind
           (if NOfPar t1 > 3
            then Some (wrap32 (dcw + 1), g1\<lparr>gors := Mark ''ext level too large'' (gors g1)\<rparr>)
            else Option.bind (q t1 (wrap32 (dcw + 1), g1)) (fill_loop (NOfPar t1)))
           (\<lambda>st2.
         Option.bind (findPtrFlds (Some t1) 0 st2) (\<lambda>(dcw3, g3).
         Option.bind (putData dcw3 (- 1) g3) (\<lambda>g4.
           let dcw4 = wrap32 (dcw3 + 1);
               g5 = g4\<lparr>tdx := dcw4\<rparr>
           in Some (t1, wrap32 (dcw4 * 4),
                    if tdx g5 \<ge> maxTD
                    then g5\<lparr>gors := Mark ''too many record types'' (gors g5), tdx := 0\<rparr>
                    else g5))))))"

text \<open>
  What a step of \<open>BuildTD\<close> keeps: the word address does not go down, and the words
  below it stay as they are.
\<close>

definition keeps :: "int \<times> Generator \<Rightarrow> int \<times> Generator \<Rightarrow> bool" where
  "keeps st st' =
     (fst st \<le> fst st' \<and> length (data (snd st')) = length (data (snd st))
      \<and> take (nat (fst st)) (data (snd st')) = take (nat (fst st)) (data (snd st)))"

text \<open>A record of \<open>n\<close> fields of type \<open>INTEGER\<close>; its size is \<open>4 * n\<close>.\<close>

definition intType :: Type where
  "intType = Type FormInt 0 0 0 [] None 4"

definition recType :: "nat \<Rightarrow> Type" where
  "recType n = Type FormRecord 0 0 0
     (map (\<lambda>i. Object ''f'' (4 * int i) (Some intType)) (rev [0..<n])) None (4 * int n)"

section \<open>Facts about the wrap-around\<close>

lemma mod_shift:
  fixes x :: int
  assumes "n dvd m"
  shows "((x + a) mod m - a + b) mod n = (x + b) mod n"
proof -
  have "((x + a) mod m - a + b) mod n = ((x + a) mod m + (b - a)) mod n"
    by (simp add: algebra_simps)
  also have "\<dots> = ((x + a) mod m mod n + (b - a)) mod n"
    by (simp only: mod_add_left_eq)
  also have "\<dots> = ((x + a) mod n + (b - a)) mod n"
    by (simp only: mod_mod_cancel [OF assms])
  also have "\<dots> = (x + a + (b - a)) mod n"
    by (simp only: mod_add_left_eq)
  finally show ?thesis by simp
qed

lemma dvd64: "(4294967296::int) dvd 18446744073709551616"
proof
  show "(18446744073709551616::int) = 4294967296 * 4294967296" by simp
qed

lemma wrap32_wrap64: "wrap32 (wrap64 x) = wrap32 x"
  unfolding wrap32_def wrap64_def
  by (simp only: mod_shift [OF dvd64])


lemma wrap64_mod: "wrap64 x mod 18446744073709551616 = x mod 18446744073709551616"
proof -
  have "((x + 9223372036854775808) mod 18446744073709551616 - 9223372036854775808 + 0) mod 18446744073709551616
          = (x + 0) mod (18446744073709551616::int)"
    by (rule mod_shift) (rule dvd_refl)
  then show ?thesis by (simp add: wrap64_def)
qed

lemma wrap64_cong:
  assumes "x mod 18446744073709551616 = y mod 18446744073709551616"
  shows "wrap64 x = wrap64 y"
proof -
  have "(x + 9223372036854775808) mod 18446744073709551616
          = (y + 9223372036854775808) mod (18446744073709551616::int)"
    using assms by (rule mod_add_cong) (rule refl)
  then show ?thesis by (simp only: wrap64_def)
qed

lemma wrap64_step: "wrap64 (wrap64 k * 16 + h) = wrap64 (k * 16 + h)"
  by (intro wrap64_cong mod_add_cong mod_mult_cong wrap64_mod refl)

lemma wrap64_id: "- 9223372036854775808 \<le> x \<Longrightarrow> x < 9223372036854775808 \<Longrightarrow> wrap64 x = x"
  by (simp add: wrap64_def)

lemma wrap32_id: "- 2147483648 \<le> x \<Longrightarrow> x < 2147483648 \<Longrightarrow> wrap32 x = x"
  by (simp add: wrap32_def)


lemmas Sym_defs =
  symNull_def SymTimes_def SymRdiv_def SymDiv_def SymMod_def SymAnd_def
  SymPlus_def SymMinus_def SymOr_def SymEql_def SymNeq_def SymLss_def
  SymLeq_def SymGtr_def SymGeq_def SymIn_def SymIs_def SymArrow_def
  SymPeriod_def SymChar_def SymInt_def SymReal_def SymFalse_def SymTrue_def
  SymNil_def SymString_def SymNot_def SymLparen_def SymLbrak_def SymLbrace_def
  SymIdent_def SymIf_def SymWhile_def SymRepeat_def SymCase_def SymFor_def
  SymComma_def SymColon_def SymBecomes_def SymUpto_def SymRparen_def SymRbrak_def
  SymRbrace_def SymThen_def SymOf_def SymDo_def SymTo_def SymBy_def
  SymSemicolon_def SymEnd_def SymBar_def SymElse_def SymElsif_def SymUntil_def
  SymReturn_def SymArray_def SymRecord_def SymPointer_def SymConst_def SymType_def
  SymVar_def SymProcedure_def SymBegin_def SymImport_def SymModule_def SymEot_def

section \<open>Claim C3: identifiers are cut to IdLen - 1 characters\<close>

lemma keyTab_length: "keyTab k = Some v \<Longrightarrow> length k \<le> 9"
  by (auto simp: keyTab_def split: if_splits)

lemma identifier_loop_run:
  assumes "\<forall>c\<in>set cs. letterOrDigit c" and "inp s = cs @ rest"
    and "rest = [] \<or> \<not> letterOrDigit (hd rest)" and "length buf \<le> IdLen - 1"
  shows "identifier_loop s buf =
           ((nextCh ^^ Suc (length cs)) s, take (IdLen - 1) (buf @ ch s # cs))"
  using assms
proof (induction cs arbitrary: s buf)
  case Nil
  then have "\<not> letterOrDigit (ch (nextCh s))"
    by (cases rest) (auto simp: ch_nextCh letterOrDigit_def)
  then show ?case
    using Nil.prems(4) by (subst identifier_loop.simps) (auto simp: letterOrDigit_def Let_def)
next
  case (Cons c cs)
  let ?buf1 = "if length buf < IdLen - 1 then buf @ [ch s] else buf"
  have c: "ch (nextCh s) = c" "letterOrDigit c"
    using Cons.prems by (simp_all add: ch_nextCh)
  have "identifier_loop (nextCh s) ?buf1 =
          ((nextCh ^^ Suc (length cs)) (nextCh s), take (IdLen - 1) (?buf1 @ ch (nextCh s) # cs))"
    using Cons.prems by (intro Cons.IH) auto
  moreover have "take (IdLen - 1) (?buf1 @ c # cs) = take (IdLen - 1) (buf @ ch s # c # cs)"
    using Cons.prems(4) by (auto simp: IdLen_def take_Cons')
  moreover have "identifier_loop s buf = identifier_loop (nextCh s) ?buf1"
    using c by (subst identifier_loop.simps) (auto simp: letterOrDigit_def Let_def)
  ultimately show ?case
    using c by (simp add: funpow_swap1)
qed

text \<open>
  C3 (as amended). Let the scanner stand on the first character of an identifier: the
  current character followed by the letters and digits \<open>cs\<close>, then the end of the input
  or a character that is neither. \<open>identifier\<close> reads the whole identifier without any
  diagnostic and delivers in \<open>Id\<close> its first \<open>IdLen - 1 = 31\<close> characters; the keyword
  table is looked up with this truncated text. In particular an identifier of more than
  31 characters (one of 40, say) is accepted, delivered as exactly its first 31 characters
  and is the symbol \<open>SymIdent\<close>.
\<close>

theorem identifier_truncates:
  assumes "\<forall>c\<in>set cs. letterOrDigit c" and "inp s = cs @ rest"
    and "rest = [] \<or> \<not> letterOrDigit (hd rest)"
  shows "Id (snd (identifier_fn s)) = take (IdLen - 1) (ch s # cs)
       \<and> fst (identifier_fn s) =
           (case keyTab (take (IdLen - 1) (ch s # cs)) of Some kwSym \<Rightarrow> kwSym | None \<Rightarrow> SymIdent)
       \<and> (IdLen - 1 \<le> length cs \<longrightarrow>
            length (Id (snd (identifier_fn s))) = IdLen - 1 \<and> fst (identifier_fn s) = SymIdent)
       \<and> ErrCnt (snd (identifier_fn s)) = ErrCnt s \<and> sink (snd (identifier_fn s)) = sink s
       \<and> inp (snd (identifier_fn s)) = tl rest"
proof -
  have run: "identifier_loop s [] = ((nextCh ^^ Suc (length cs)) s, take (IdLen - 1) (ch s # cs))"
    using identifier_loop_run [OF assms, of "[]"] by simp
  have key: "IdLen - 1 \<le> length cs \<Longrightarrow> keyTab (take (IdLen - 1) (ch s # cs)) = None"
  proof (rule ccontr)
    assume len: "IdLen - 1 \<le> length cs" and "keyTab (take (IdLen - 1) (ch s # cs)) \<noteq> None"
    then obtain v where "keyTab (take (IdLen - 1) (ch s # cs)) = Some v" by auto
    from keyTab_length [OF this] len show False by (simp add: IdLen_def)
  qed
  have fn: "identifier_fn s =
      (case keyTab (take (IdLen - 1) (ch s # cs)) of
         Some kwSym \<Rightarrow> (kwSym, ((nextCh ^^ Suc (length cs)) s)\<lparr>Id := take (IdLen - 1) (ch s # cs)\<rparr>)
       | None \<Rightarrow> (SymIdent, ((nextCh ^^ Suc (length cs)) s)\<lparr>Id := take (IdLen - 1) (ch s # cs)\<rparr>))"
    by (simp add: identifier_fn_def run Let_def split: option.splits)
  have snd: "snd (identifier_fn s) =
      ((nextCh ^^ Suc (length cs)) s)\<lparr>Id := take (IdLen - 1) (ch s # cs)\<rparr>"
    by (simp add: fn split: option.splits)
  have fst: "fst (identifier_fn s) =
      (case keyTab (take (IdLen - 1) (ch s # cs)) of Some kwSym \<Rightarrow> kwSym | None \<Rightarrow> SymIdent)"
    by (simp add: fn split: option.splits)
  have "inp (snd (identifier_fn s)) = tl rest"
    unfolding snd by (simp add: inp_nextCh_pow assms(2) drop_Suc del: funpow.simps)
  moreover have "ErrCnt (snd (identifier_fn s)) = ErrCnt s" "sink (snd (identifier_fn s)) = sink s"
    unfolding snd by (simp_all del: funpow.simps)
  moreover have "Id (snd (identifier_fn s)) = take (IdLen - 1) (ch s # cs)"
    unfolding snd by simp
  moreover have "IdLen - 1 \<le> length cs \<Longrightarrow> fst (identifier_fn s) = SymIdent"
    using key by (simp add: fst)
  moreover have "IdLen - 1 \<le> length cs \<Longrightarrow> length (take (IdLen - 1) (ch s # cs)) = IdLen - 1"
    by simp
  ultimately show ?thesis
    using fst by simp
qed

theorem identifier_truncates_witness:
  "Id (snd (identifier_fn (nextCh (NewScanner ''abcdefghijklmnopqrstuvwxyzABCDEFGHIJKLMN := 1''))))
     = ''abcdefghijklmnopqrstuvwxyzABCDE''
   \<and> fst (identifier_fn (nextCh (NewScanner ''abcdefghijklmnopqrstuvwxyzABCDEFGHIJKLMN := 1'')))
     = SymIdent
   \<and> inp (snd (identifier_fn (nextCh (NewScanner ''abcdefghijklmnopqrstuvwxyzABCDEFGHIJKLMN := 1''))))
     = '':= 1''"
  using identifier_truncates [of "''bcdefghijklmnopqrstuvwxyzABCDEFGHIJKLMN''"
      "nextCh (NewScanner ''abcdefghijklmnopqrstuvwxyzABCDEFGHIJKLMN := 1'')" "'' := 1''"]
  by (simp add: letterOrDigit_def nextCh_def NewScanner_def IdLen_def)

text \<open>
  C3 as stated fails: the 40 character identifier is not delivered as its first 32
  characters; \<open>Id\<close> holds 31.
\<close>

theorem identifier_32_counterexample:
  "length ''abcdefghijklmnopqrstuvwxyzABCDEFGHIJKLMN'' = 40
   \<and> Id (snd (identifier_fn (nextCh (NewScanner ''abcdefghijklmnopqrstuvwxyzABCDEFGHIJKLMN := 1''))))
       \<noteq> take 32 ''abcdefghijklmnopqrstuvwxyzABCDEFGHIJKLMN''
   \<and> length (Id (snd (identifier_fn
        (nextCh (NewScanner ''abcdefghijklmnopqrstuvwxyzABCDEFGHIJKLMN := 1''))))) = 31"
  by code_simp

section \<open>Claim C10: hex literals are folded without overflow check\<close>

lemma number_digits_run:
  assumes "\<forall>c\<in>set ds. hexDigitChar c" and "inp s = ds @ rest"
    and "rest = [] \<or> \<not> hexDigitChar (hd rest)" and "length d + length ds < 16"
  shows "number_digits s d =
           ((nextCh ^^ Suc (length ds)) s, d @ map (\<lambda>c. of_char c - 0x30) (ch s # ds))"
  using assms
proof (induction ds arbitrary: s d)
  case Nil
  then have "\<not> hexDigitChar (ch (nextCh s))"
    by (cases rest) (auto simp: ch_nextCh hexDigitChar_def)
  then show ?case
    using Nil.prems(4) by (subst number_digits.simps) (auto simp: hexDigitChar_def Let_def)
next
  case (Cons c cs)
  have c: "ch (nextCh s) = c" "hexDigitChar c"
    using Cons.prems by (simp_all add: ch_nextCh)
  have "number_digits (nextCh s) (d @ [of_char (ch s) - 0x30]) =
          ((nextCh ^^ Suc (length cs)) (nextCh s),
           (d @ [of_char (ch s) - 0x30]) @ map (\<lambda>c. of_char c - 0x30) (ch (nextCh s) # cs))"
    using Cons.prems by (intro Cons.IH) auto
  moreover have "number_digits s d = number_digits (nextCh s) (d @ [of_char (ch s) - 0x30])"
    using c Cons.prems(4) by (subst number_digits.simps) (auto simp: hexDigitChar_def Let_def)
  ultimately show ?case
    using c by (simp add: funpow_swap1)
qed

lemma hexDigit_conv:
  "hexDigitChar c \<Longrightarrow>
     (if (of_char c - 0x30 :: int) \<ge> 10 then of_char c - 0x30 - 7 else of_char c - 0x30) = hexDigitVal c"
proof -
  have "(of_char c :: int) = int (of_char c)"
    by (simp only: of_nat_of_char)
  then show "hexDigitChar c \<Longrightarrow> ?thesis"
    by (auto simp: hexDigitChar_def hexDigitVal_def less_char_def less_eq_char_def)
qed


lemma wrap64_idem: "wrap64 (wrap64 x) = wrap64 x"
  by (intro wrap64_cong wrap64_mod)

lemma hexFold_snoc: "hexFold (d @ [h]) = wrap64 (hexFold d * 0x10 + (if h \<ge> 10 then h - 7 else h))"
  by (simp add: hexFold_def)

lemma hexFold_hexValue:
  "\<forall>c\<in>set cs. hexDigitChar c \<Longrightarrow>
     wrap64 (hexFold (map (\<lambda>c. of_char c - 0x30) cs)) = wrap64 (hexValue cs)"
proof (induction cs rule: rev_induct)
  case Nil
  show ?case by (simp add: hexFold_def hexValue_def)
next
  case (snoc c cs)
  let ?d = "map (\<lambda>c. of_char c - 0x30) cs"
  have IH: "wrap64 (hexFold ?d) = wrap64 (hexValue cs)"
    using snoc by simp
  have v: "(if (of_char c - 0x30 :: int) \<ge> 10 then of_char c - 0x30 - 7 else of_char c - 0x30)
             = hexDigitVal c"
    using snoc.prems by (intro hexDigit_conv) simp
  have "hexFold (map (\<lambda>c. of_char c - 0x30) (cs @ [c])) = wrap64 (hexFold ?d * 16 + hexDigitVal c)"
    using v by (simp add: hexFold_snoc)
  also have "\<dots> = wrap64 (wrap64 (hexFold ?d) * 16 + hexDigitVal c)"
    by (simp only: wrap64_step)
  also have "\<dots> = wrap64 (hexValue cs * 16 + hexDigitVal c)"
    by (simp only: IH wrap64_step)
  finally show ?case
    by (simp add: wrap64_idem hexValue_def)
qed

lemma wrap32_hexFold:
  assumes "\<forall>c\<in>set cs. hexDigitChar c"
  shows "wrap32 (hexFold (map (\<lambda>c. of_char c - 0x30) cs)) = wrap32 (hexValue cs)"
proof -
  have "wrap32 (wrap64 (hexFold (map (\<lambda>c. of_char c - 0x30) cs))) = wrap32 (wrap64 (hexValue cs))"
    using hexFold_hexValue [OF assms] by simp
  then show ?thesis by (simp only: wrap32_wrap64)
qed

lemma ch_nextCh_pow:
  "inp s = ds @ c # rest \<Longrightarrow> ch ((nextCh ^^ Suc (length ds)) s) = c"
proof (induction ds arbitrary: s)
  case Nil
  then show ?case by (simp add: ch_nextCh)
next
  case (Cons d ds)
  then have "ch ((nextCh ^^ Suc (length ds)) (nextCh s)) = c"
    by (intro Cons.IH) simp
  then show ?case by (simp add: funpow_swap1)
qed

lemma tooManyDigits_0: "tooManyDigits p e c 0 = []"
  by (simp add: tooManyDigits_def)

lemma tooManyDigits_Suc:
  "tooManyDigits p e c (Suc m) =
     (if e < p \<and> c < 25 then [(p, ''too many digits'')] else [])
       @ tooManyDigits (p + 17) (p + 4) (c + 1) m"
proof -
  let ?P = "\<lambda>j. (j = 0 \<longrightarrow> e < p) \<and> c + int j < 25"
  let ?Q = "\<lambda>j. (j = 0 \<longrightarrow> p + 4 < p + 17) \<and> c + 1 + int j < 25"
  let ?f = "\<lambda>j. (p + 17 * int j, ''too many digits'')"
  let ?g = "\<lambda>j. (p + 17 + 17 * int j, ''too many digits'')"
  have u: "[0..<Suc m] = 0 # map Suc [0..<m]"
    by (simp only: upt_conv_Cons [OF zero_less_Suc] map_Suc_upt)
  have b: "filter ?P (map Suc [0..<m]) = map Suc (filter ?Q [0..<m])"
    unfolding filter_map by (intro arg_cong [where f = "map Suc"] filter_cong) auto
  have a: "map ?f (map Suc xs) = map ?g xs" for xs
    by simp
  have "map ?f (filter ?P [0..<Suc m])
          = (if e < p \<and> c < 25 then [(p, ''too many digits'')] else [])
              @ map ?f (filter ?P (map Suc [0..<m]))"
    unfolding u by simp
  also have "map ?f (filter ?P (map Suc [0..<m])) = map ?g (filter ?Q [0..<m])"
    unfolding b by (rule a)
  finally show ?thesis
    unfolding tooManyDigits_def .
qed

lemma number_digits_gen:
  assumes "\<forall>c\<in>set ds. hexDigitChar c" and "inp s = ds @ rest"
    and "rest = [] \<or> \<not> hexDigitChar (hd rest)" and "length d \<le> 16"
  shows "snd (number_digits s d)
           = drop (17 * ((length d + Suc (length ds)) div 17))
               (d @ map (\<lambda>c. of_char c - 0x30) (ch s # ds))
       \<and> ErrCnt (fst (number_digits s d))
           = ErrCnt s + int ((length d + Suc (length ds)) div 17)
       \<and> sink (fst (number_digits s d))
           = sink s @ tooManyDigits (Pos s + 16 - int (length d)) (errPos s) (ErrCnt s)
                        ((length d + Suc (length ds)) div 17)
       \<and> inp (fst (number_digits s d)) = tl rest
       \<and> ch (fst (number_digits s d)) = (if rest = [] then CHR 0x00 else hd rest)"
  using assms
proof (induction ds arbitrary: s d)
  case Nil
  have stop: "\<And>t. inp t = inp s \<Longrightarrow> \<not> hexDigitChar (ch (nextCh t))"
    using Nil.prems by (cases rest) (auto simp: ch_nextCh hexDigitChar_def)
  have chn: "\<And>t. inp t = inp s \<Longrightarrow> ch (nextCh t) = (if rest = [] then CHR 0x00 else hd rest)"
    using Nil.prems by (cases rest) (auto simp: ch_nextCh)
  show ?case
  proof (cases "length d < 16")
    case True
    have "number_digits s d = (nextCh s, d @ [of_char (ch s) - 0x30])"
      using stop [of s] True
      by (subst number_digits.simps) (auto simp: hexDigitChar_def Let_def)
    then show ?thesis
      using True Nil.prems chn [of s] by (simp add: tooManyDigits_0)
  next
    case False
    then have l: "length d = 16" using Nil.prems by simp
    have "number_digits s d = (nextCh (Mark ''too many digits'' s), [])"
      using stop [of "Mark ''too many digits'' s"] False
      by (subst number_digits.simps) (auto simp: hexDigitChar_def Let_def)
    then show ?thesis
      using l Nil.prems chn [of "Mark ''too many digits'' s"]
      by (simp add: tooManyDigits_Suc [of _ _ _ 0, simplified] tooManyDigits_0 Mark_sink)
  qed
next
  case (Cons c cs)
  have go: "\<And>t. inp t = inp s \<Longrightarrow> ch (nextCh t) = c \<and> hexDigitChar (ch (nextCh t))"
    using Cons.prems by (simp add: ch_nextCh)
  show ?case
  proof (cases "length d < 16")
    case True
    let ?d1 = "d @ [of_char (ch s) - 0x30]"
    have eq: "number_digits s d = number_digits (nextCh s) ?d1"
      using go [of s] True
      by (subst number_digits.simps) (auto simp: hexDigitChar_def Let_def)
    have IH: "snd (number_digits (nextCh s) ?d1)
           = drop (17 * ((length ?d1 + Suc (length cs)) div 17))
               (?d1 @ map (\<lambda>c. of_char c - 0x30) (ch (nextCh s) # cs))
       \<and> ErrCnt (fst (number_digits (nextCh s) ?d1))
           = ErrCnt (nextCh s) + int ((length ?d1 + Suc (length cs)) div 17)
       \<and> sink (fst (number_digits (nextCh s) ?d1))
           = sink (nextCh s) @ tooManyDigits (Pos (nextCh s) + 16 - int (length ?d1))
                        (errPos (nextCh s)) (ErrCnt (nextCh s))
                        ((length ?d1 + Suc (length cs)) div 17)
       \<and> inp (fst (number_digits (nextCh s) ?d1)) = tl rest
       \<and> ch (fst (number_digits (nextCh s) ?d1)) = (if rest = [] then CHR 0x00 else hd rest)"
      using Cons.prems True by (intro Cons.IH) auto
    have p: "Pos (nextCh s) + 16 - int (length ?d1) = Pos s + 16 - int (length d)"
      by simp
    show ?thesis
      unfolding eq using IH go [of s] unfolding p by simp
  next
    case False
    then have l: "length d = 16" using Cons.prems by simp
    let ?s1 = "nextCh (Mark ''too many digits'' s)"
    have eq: "number_digits s d = number_digits ?s1 []"
      using go [of "Mark ''too many digits'' s"] False
      by (subst number_digits.simps) (auto simp: hexDigitChar_def Let_def)
    have IH: "snd (number_digits ?s1 [])
           = drop (17 * ((length ([]::int list) + Suc (length cs)) div 17))
               ([] @ map (\<lambda>c. of_char c - 0x30) (ch ?s1 # cs))
       \<and> ErrCnt (fst (number_digits ?s1 []))
           = ErrCnt ?s1 + int ((length ([]::int list) + Suc (length cs)) div 17)
       \<and> sink (fst (number_digits ?s1 []))
           = sink ?s1 @ tooManyDigits (Pos ?s1 + 16 - int (length ([]::int list)))
                        (errPos ?s1) (ErrCnt ?s1)
                        ((length ([]::int list) + Suc (length cs)) div 17)
       \<and> inp (fst (number_digits ?s1 [])) = tl rest
       \<and> ch (fst (number_digits ?s1 [])) = (if rest = [] then CHR 0x00 else hd rest)"
      using Cons.prems by (intro Cons.IH) auto
    have t: "(length d + Suc (length (c # cs))) div 17 = Suc (Suc (length cs) div 17)"
      using l by simp
    have dr: "drop (17 + 17 * n) (d @ x # xs) = drop (17 * n) xs" for n x and xs :: "int list"
      using l by simp
    have c1: "ch ?s1 = c"
      using go [of "Mark ''too many digits'' s"] by simp
    show ?thesis
      unfolding eq t using IH l c1
      by (simp add: tooManyDigits_Suc Mark_sink dr add.commute [of "17::int"] del: drop_append)
  qed
qed

lemma keptDigits_hex: "\<forall>c\<in>set cs. hexDigitChar c \<Longrightarrow> \<forall>c\<in>set (keptDigits cs). hexDigitChar c"
  by (auto simp: keptDigits_def dest: in_set_dropD)

lemma number_hex:
  assumes "\<forall>c\<in>set (ch s # ds). hexDigitChar c" and "inp s = ds @ CHR ''H'' # rest"
  shows "fst (number s) = SymInt
       \<and> Ival (snd (number s)) = wrap32 (hexValue (keptDigits (ch s # ds)))
       \<and> ErrCnt (snd (number s)) = ErrCnt s + int (Suc (length ds) div 17)
       \<and> sink (snd (number s))
           = sink s @ tooManyDigits (Pos s + 16) (errPos s) (ErrCnt s) (Suc (length ds) div 17)
       \<and> inp (snd (number s)) = tl rest"
proof -
  let ?s0 = "s\<lparr>Ival := 0\<rparr>"
  define r where "r = number_digits ?s0 []"
  have hex: "\<forall>c\<in>set ds. hexDigitChar c"
    using assms(1) by simp
  have stop: "CHR ''H'' # rest = [] \<or> \<not> hexDigitChar (hd (CHR ''H'' # rest))"
    by (simp add: hexDigitChar_def)
  have inp: "inp ?s0 = ds @ CHR ''H'' # rest"
    using assms(2) by simp
  note g = number_digits_gen [OF hex inp stop, of "[]", folded r_def]
  have d: "snd r = map (\<lambda>c. of_char c - 0x30) (keptDigits (ch s # ds))"
    using g by (simp add: keptDigits_def drop_map del: list.map)
  have e: "ErrCnt (fst r) = ErrCnt s + int (Suc (length ds) div 17)"
    using g by simp
  have k: "sink (fst r)
             = sink s @ tooManyDigits (Pos s + 16) (errPos s) (ErrCnt s) (Suc (length ds) div 17)"
    using g by (simp add: Pos_def)
  have i: "inp (fst r) = rest" and c: "ch (fst r) = CHR ''H''"
    using g by simp_all
  have v: "wrap32 (hexFold (snd r)) = wrap32 (hexValue (keptDigits (ch s # ds)))"
    unfolding d by (intro wrap32_hexFold keptDigits_hex assms(1))
  have n: "number s = (SymInt, nextCh ((fst r)\<lparr>Ival := wrap32 (hexFold (snd r))\<rparr>))"
    unfolding number_def r_def [symmetric] using c
    by (simp add: Let_def case_prod_beta)
  show ?thesis
    unfolding n using v e k i by simp
qed


lemma decimalInteger_quiet:
  "Pos s < errPos s \<Longrightarrow>
     sink (snd (decimalInteger ds k s)) = sink s
     \<and> ErrCnt s \<le> ErrCnt (snd (decimalInteger ds k s))"
proof (induction ds arbitrary: k s)
  case Nil
  show ?case by simp
next
  case (Cons d ds)
  have m: "sink (snd (decimalInteger ds k' (Mark msg s))) = sink s
           \<and> ErrCnt s \<le> ErrCnt (snd (decimalInteger ds k' (Mark msg s)))" for k' msg
    using Cons.IH [of "Mark msg s" k'] Cons.prems by (simp add: Mark_sink)
  show ?case
    using m Cons.IH [OF Cons.prems] by simp
qed

lemma foldl_dec_mono:
  "\<forall>d\<in>set ds. (0::int) \<le> d \<Longrightarrow> 0 \<le> k \<Longrightarrow> k \<le> foldl (\<lambda>k d. k * 10 + d) k ds"
proof (induction ds arbitrary: k)
  case Nil
  show ?case by simp
next
  case (Cons d ds)
  have "k * 10 + d \<le> foldl (\<lambda>k d. k * 10 + d) (k * 10 + d) ds"
    using Cons.prems by (intro Cons.IH) auto
  then show ?case using Cons.prems by simp
qed

lemma dec_test:
  assumes "0 \<le> d" "d < 10" "0 \<le> k"
  shows "(k \<le> (2147483647 - d) sdiv 10) = (k * 10 + d \<le> (2147483647::int))"
proof -
  define q where "q = (2147483647 - d) div 10"
  define r where "r = (2147483647 - d) mod 10"
  have s: "(2147483647 - d) sdiv 10 = q"
    using assms by (simp add: signed_divide_int_def sgn_if q_def)
  have e: "10 * q + r = 2147483647 - d"
    unfolding q_def r_def by (rule mult_div_mod_eq)
  have r: "0 \<le> r" "r < 10"
    unfolding r_def by simp_all
  show ?thesis
    unfolding s using e r by linarith
qed

lemma decimalInteger_digits:
  assumes "\<forall>d\<in>set ds. 0 \<le> d \<and> d < 10" and "0 \<le> k" and "k \<le> 2147483647"
  shows "(foldl (\<lambda>k d. k * 10 + d) k ds \<le> 2147483647 \<longrightarrow>
            decimalInteger ds k s = (foldl (\<lambda>k d. k * 10 + d) k ds, s))
       \<and> (2147483647 < foldl (\<lambda>k d. k * 10 + d) k ds \<longrightarrow>
            ErrCnt s < ErrCnt (snd (decimalInteger ds k s))
            \<and> sink (snd (decimalInteger ds k s)) = sink (Mark ''too large'' s))"
  using assms
proof (induction ds arbitrary: k s)
  case Nil
  then show ?case by simp
next
  case (Cons d ds)
  have d: "0 \<le> d" "d < 10" and ds: "\<forall>d\<in>set ds. 0 \<le> d \<and> d < 10"
    using Cons.prems(1) by simp_all
  have test: "(k \<le> (2147483647 - d) sdiv 10) = (k * 10 + d \<le> 2147483647)"
    using d Cons.prems(2) by (intro dec_test)
  show ?case
  proof (cases "k * 10 + d \<le> 2147483647")
    case True
    have w: "wrap64 (k * 10 + d) = k * 10 + d"
      using True d Cons.prems(2) by (intro wrap64_id) auto
    have "0 \<le> k * 10 + d" using d Cons.prems(2) by simp
    from Cons.IH [OF ds this True, of s] show ?thesis
      using True d by (simp add: test w)
  next
    case False
    have big: "2147483647 < foldl (\<lambda>k d. k * 10 + d) (k * 10 + d) ds"
      using foldl_dec_mono [of ds "k * 10 + d"] ds d Cons.prems(2) False by fastforce
    have "Pos (Mark ''too large'' s) < errPos (Mark ''too large'' s)"
      by simp
    from decimalInteger_quiet [OF this, of ds 0] show ?thesis
      using False d big by (simp add: test)
  qed
qed


lemma ch_nextCh_pow_end:
  "inp s = ds \<Longrightarrow> ch ((nextCh ^^ Suc (length ds)) s) = CHR 0x00"
proof (induction ds arbitrary: s)
  case Nil
  then show ?case by (simp add: ch_nextCh)
next
  case (Cons d ds)
  then have "ch ((nextCh ^^ Suc (length ds)) (nextCh s)) = CHR 0x00"
    by (intro Cons.IH) simp
  then show ?case by (simp add: funpow_swap1)
qed

lemma decDigit_val: "decDigitChar c \<Longrightarrow> 0 \<le> (of_char c - 0x30 :: int) \<and> (of_char c - 0x30 :: int) < 10"
proof -
  have "(of_char c :: int) = int (of_char c)"
    by (simp only: of_nat_of_char)
  then show "decDigitChar c \<Longrightarrow> ?thesis"
    by (auto simp: decDigitChar_def less_eq_char_def)
qed

lemma decDigit_hexDigit: "decDigitChar c \<Longrightarrow> hexDigitChar c"
  by (auto simp: decDigitChar_def hexDigitChar_def)

lemma number_decimal:
  assumes "\<forall>c\<in>set (ch t # es). decDigitChar c" and "length es < 16"
    and "inp t = es @ rest"
    and "rest = [] \<or> (\<not> hexDigitChar (hd rest) \<and> hd rest \<noteq> CHR ''H'' \<and> hd rest \<noteq> CHR ''R''
           \<and> hd rest \<noteq> CHR ''X'' \<and> hd rest \<noteq> CHR ''.'')"
  shows "number t =
           (let (k, s2) = decimalInteger (map (\<lambda>c. of_char c - 0x30) (ch t # es)) 0
                            ((nextCh ^^ Suc (length es)) (t\<lparr>Ival := 0\<rparr>))
            in (SymInt, s2\<lparr>Ival := wrap32 k\<rparr>))"
proof -
  let ?s1 = "(nextCh ^^ Suc (length es)) (t\<lparr>Ival := 0\<rparr>)"
  have hex: "\<forall>c\<in>set es. hexDigitChar c"
    using assms(1) by (simp add: decDigit_hexDigit)
  have stop: "rest = [] \<or> \<not> hexDigitChar (hd rest)"
    using assms(4) by blast
  have run: "number_digits (t\<lparr>Ival := 0\<rparr>) [] = (?s1, map (\<lambda>c. of_char c - 0x30) (ch t # es))"
    using number_digits_run [of es "t\<lparr>Ival := 0\<rparr>" rest "[]"] hex stop assms(2,3)
    by simp
  have ch: "ch ?s1 \<noteq> CHR ''H'' \<and> ch ?s1 \<noteq> CHR ''R'' \<and> ch ?s1 \<noteq> CHR ''X'' \<and> ch ?s1 \<noteq> CHR ''.''"
  proof (cases rest)
    case Nil
    then have "ch ?s1 = CHR 0x00"
      using assms(3) by (intro ch_nextCh_pow_end) simp
    then show ?thesis by simp
  next
    case (Cons c cs)
    then have "ch ?s1 = c"
      using assms(3) by (intro ch_nextCh_pow [where rest = cs]) simp
    then show ?thesis using assms(4) Cons by simp
  qed
  show ?thesis
    unfolding number_def run using ch by (simp add: Let_def del: funpow.simps)
qed

text \<open>
  C10 (as amended). For every literal of hex digits with suffix \<open>H\<close>, the digits are
  folded with no overflow check, from a buffer of 16 digits: every 17th digit marks
  "too many digits" and empties the buffer, so that the digits folded are those behind
  the last multiple of 17 (\<open>keptDigits\<close>: all of them, for a literal of at most 16
  digits). \<open>number\<close> delivers \<open>SymInt\<close> with \<open>Ival\<close> equal to the hexadecimal value of
  these digits reduced modulo \<open>2^32\<close> (as a signed 32 bit number); the error count grows
  by one for each reset and by nothing else, and the sink receives the messages
  "too many digits" of the resets (under the rule of \<open>Mark\<close>) and nothing else: a literal
  of at most 16 digits changes neither the count nor the sink, whatever its value. In
  contrast a decimal literal of at most 16 digits, followed by a character that is not a
  hex digit, \<open>H\<close>, \<open>R\<close>, \<open>X\<close> or a period, is delivered unchanged when its value is at
  most \<open>2^31 - 1\<close>, and otherwise counts an error, the message being "too large" (printed
  when the rule of \<open>Mark\<close> lets it through).
\<close>

theorem number_hex_wraps:
  assumes "\<forall>c\<in>set (ch s # ds). hexDigitChar c"
    and "inp s = ds @ CHR ''H'' # rest"
    and "\<forall>c\<in>set (ch t # es). decDigitChar c" and "length es < 16"
    and "inp t = es @ rest'"
    and "rest' = [] \<or> (\<not> hexDigitChar (hd rest') \<and> hd rest' \<noteq> CHR ''H'' \<and> hd rest' \<noteq> CHR ''R''
           \<and> hd rest' \<noteq> CHR ''X'' \<and> hd rest' \<noteq> CHR ''.'')"
  shows "fst (number s) = SymInt
       \<and> Ival (snd (number s)) = wrap32 (hexValue (keptDigits (ch s # ds)))
       \<and> ErrCnt (snd (number s)) = ErrCnt s + int (Suc (length ds) div 17)
       \<and> sink (snd (number s))
           = sink s @ tooManyDigits (Pos s + 16) (errPos s) (ErrCnt s) (Suc (length ds) div 17)
       \<and> (length ds < 16 \<longrightarrow>
            Ival (snd (number s)) = wrap32 (hexValue (ch s # ds))
            \<and> ErrCnt (snd (number s)) = ErrCnt s \<and> sink (snd (number s)) = sink s)
       \<and> inp (snd (number s)) = tl rest
       \<and> fst (number t) = SymInt
       \<and> (decValue (ch t # es) \<le> 2147483647 \<longrightarrow>
            Ival (snd (number t)) = decValue (ch t # es)
            \<and> ErrCnt (snd (number t)) = ErrCnt t \<and> sink (snd (number t)) = sink t)
       \<and> (2147483647 < decValue (ch t # es) \<longrightarrow>
            ErrCnt t < ErrCnt (snd (number t))
            \<and> sink (snd (number t)) =
                (if errPos t < Pos t + int (Suc (length es)) \<and> ErrCnt t < 25
                 then sink t @ [(Pos t + int (Suc (length es)), ''too large'')] else sink t))"
proof -
  note hex = number_hex [OF assms(1,2)]
  have h1: "fst (number s) = SymInt"
    "Ival (snd (number s)) = wrap32 (hexValue (keptDigits (ch s # ds)))"
    "ErrCnt (snd (number s)) = ErrCnt s + int (Suc (length ds) div 17)"
    "sink (snd (number s))
       = sink s @ tooManyDigits (Pos s + 16) (errPos s) (ErrCnt s) (Suc (length ds) div 17)"
    and h2: "inp (snd (number s)) = tl rest"
    using hex by blast+
  have h3: "Ival (snd (number s)) = wrap32 (hexValue (ch s # ds))
            \<and> ErrCnt (snd (number s)) = ErrCnt s \<and> sink (snd (number s)) = sink s"
    if "length ds < 16"
  proof -
    have "Suc (length ds) div 17 = 0"
      using that by simp
    then show ?thesis
      unfolding h1 by (simp add: keptDigits_def tooManyDigits_0)
  qed
  let ?t1 = "(nextCh ^^ Suc (length es)) (t\<lparr>Ival := 0\<rparr>)"
  let ?d = "map (\<lambda>c. of_char c - 0x30) (ch t # es) :: int list"
  have dec: "number t = (let (k, s2) = decimalInteger ?d 0 ?t1 in (SymInt, s2\<lparr>Ival := wrap32 k\<rparr>))"
    using assms(3-6) by (rule number_decimal)
  have d: "\<forall>d\<in>set ?d. 0 \<le> d \<and> d < 10"
    using assms(3) decDigit_val by auto
  have v: "foldl (\<lambda>k d. k * 10 + d) 0 ?d = decValue (ch t # es)"
    unfolding decValue_def by (simp only: foldl_map)
  have v0: "0 \<le> decValue (ch t # es)"
    using foldl_dec_mono [of ?d 0] d unfolding v by auto
  define r where "r = decimalInteger ?d 0 ?t1"
  note run = decimalInteger_digits [OF d, of 0 ?t1, unfolded v, folded r_def]
  have dec': "number t = (SymInt, (snd r)\<lparr>Ival := wrap32 (fst r)\<rparr>)"
    unfolding dec r_def by (simp only: Let_def split: prod.splits) simp
  have p: "Pos ?t1 = Pos t + int (Suc (length es))" "errPos ?t1 = errPos t"
    "ErrCnt ?t1 = ErrCnt t" "sink ?t1 = sink t"
    by (simp_all add: Pos_def del: funpow.simps)
  have d1: "fst (number t) = SymInt"
    unfolding dec' by simp
  have d2: "Ival (snd (number t)) = decValue (ch t # es) \<and> ErrCnt (snd (number t)) = ErrCnt t
            \<and> sink (snd (number t)) = sink t"
    if "decValue (ch t # es) \<le> 2147483647"
  proof -
    have "r = (decValue (ch t # es), ?t1)"
      using run that by simp
    moreover have "wrap32 (decValue (ch t # es)) = decValue (ch t # es)"
      using that v0 by (intro wrap32_id) auto
    ultimately show ?thesis
      unfolding dec' by (simp add: p del: funpow.simps)
  qed
  have d3: "ErrCnt t < ErrCnt (snd (number t))
            \<and> sink (snd (number t)) =
                (if errPos t < Pos t + int (Suc (length es)) \<and> ErrCnt t < 25
                 then sink t @ [(Pos t + int (Suc (length es)), ''too large'')] else sink t)"
    if "2147483647 < decValue (ch t # es)"
  proof -
    have "ErrCnt ?t1 < ErrCnt (snd r)" "sink (snd r) = sink (Mark ''too large'' ?t1)"
      using run that by simp_all
    then have "ErrCnt t < ErrCnt (snd r)"
      and "sink (snd r) =
        (if errPos t < Pos t + int (Suc (length es)) \<and> ErrCnt t < 25
         then sink t @ [(Pos t + int (Suc (length es)), ''too large'')] else sink t)"
      by (simp_all only: Mark_sink p)
    then show ?thesis
      unfolding dec' by simp
  qed
  show ?thesis
    using h1 h2 h3 d1 d2 d3 by blast
qed

theorem number_hex_wraps_witness:
  "number (nextCh (NewScanner ''0FFFFFFFFH;'')) =
     (SymInt, \<lparr>Ival = - 1, Id = [], Str = [], ErrCnt = 0, ch = CHR '';'', eot = False,
              errPos = 0, pos = 11, inp = [], sink = []\<rparr>)
   \<and> 0 < ErrCnt (snd (number (nextCh (NewScanner ''2147483648;''))))
   \<and> sink (snd (number (nextCh (NewScanner ''2147483648;'')))) = [(10, ''too large'')]
   \<and> Ival (snd (number (nextCh (NewScanner ''0123456789ABCDEF02H;'')))) = 2
   \<and> ErrCnt (snd (number (nextCh (NewScanner ''0123456789ABCDEF02H;'')))) = 1
   \<and> sink (snd (number (nextCh (NewScanner ''0123456789ABCDEF02H;''))))
       = [(16, ''too many digits'')]"
proof -
  have "number (nextCh (NewScanner ''0FFFFFFFFH;'')) =
     (SymInt, \<lparr>Ival = - 1, Id = [], Str = [], ErrCnt = 0, ch = CHR '';'', eot = False,
              errPos = 0, pos = 11, inp = [], sink = []\<rparr>)"
    by code_simp
  moreover have "(0::int) < 1 \<and> [(10::int, ''too large'')] = [] @ [(10, ''too large'')]"
    by simp
  moreover have "wrap32 (hexValue ''2'') = 2"
    by (simp add: wrap32_def hexValue_def hexDigitVal_def)
  ultimately show ?thesis
    using number_hex_wraps [of "nextCh (NewScanner ''0FFFFFFFFH;'')" "''FFFFFFFF''" "'';''"
      "nextCh (NewScanner ''2147483648;'')" "''147483648''" "'';''"]
      number_hex_wraps [of "nextCh (NewScanner ''0123456789ABCDEF02H;'')"
      "''123456789ABCDEF02''" "'';''"
      "nextCh (NewScanner ''2147483648;'')" "''147483648''" "'';''"]
    by (simp add: hexDigitChar_def decDigitChar_def nextCh_def NewScanner_def decValue_def
          Pos_def keptDigits_def tooManyDigits_def)
qed

text \<open>
  C10 as stated fails for a literal of 17 digits: the hexadecimal value of
  \<open>10000000000000001H\<close> is \<open>2^64 + 1\<close>, which does not fit in 32 bits and is 1 modulo
  \<open>2^32\<close>; the 17th digit marks "too many digits" and empties the digit buffer, so the
  literal is delivered as 0, with an error counted and printed.
\<close>

theorem number_hex_17_digits_counterexample:
  "hexValue ''10000000000000001'' = 2 ^ 64 + 1
   \<and> wrap32 (hexValue ''10000000000000001'') = 1
   \<and> number (nextCh (NewScanner ''10000000000000001H;'')) =
     (SymInt, \<lparr>Ival = 0, Id = [], Str = [], ErrCnt = 1, ch = CHR '';'', eot = False,
              errPos = 20, pos = 19, inp = [], sink = [(16, ''too many digits'')]\<rparr>)"
  by code_simp
section \<open>Claim C9: when Mark prints\<close>

text \<open>
  C9 (as amended). Let \<open>Mark\<close> have been called at position \<open>Pos s\<close> and let \<open>n\<close>
  characters be read after it. The next call of \<open>Mark\<close> prints its message, stamped with
  the current position, if and only if the current position is strictly greater than the
  position of the preceding call plus 4 and fewer than 25 calls of \<open>Mark\<close> have been
  counted (the counter includes the suppressed ones); otherwise the sink is unchanged.
  Every call, printed or not, counts and moves the reference position.
\<close>

theorem Mark_prints_iff:
  "sink (Mark msg ((nextCh ^^ n) (Mark msg0 s))) =
     (if Pos s + 4 < Pos s + int n \<and> ErrCnt s + 1 < 25
      then sink (Mark msg0 s) @ [(Pos s + int n, msg)]
      else sink (Mark msg0 s))
   \<and> ErrCnt (Mark msg ((nextCh ^^ n) (Mark msg0 s))) = ErrCnt s + 2
   \<and> errPos (Mark msg ((nextCh ^^ n) (Mark msg0 s))) = Pos s + int n + 4"
  by (simp add: Mark_sink)

theorem Mark_prints_iff_witness:
  "sink (Mark ''b'' ((nextCh ^^ 5) (Mark ''a'' ((nextCh ^^ 11) (NewScanner ''MODULE M; END M.'')))))
     = [(10, ''a''), (15, ''b'')]"
  using Mark_prints_iff [of "''b''" 5 "''a''" "(nextCh ^^ 11) (NewScanner ''MODULE M; END M.'')"]
  by (simp add: Mark_sink NewScanner_def Pos_def)

text \<open>
  C9 as stated fails: after a message printed at position 10, a call at position 14 is
  strictly beyond 10 + 3 with one error so far, yet nothing is printed.
\<close>

theorem Mark_plus3_counterexample:
  "sink (Mark ''a'' ((nextCh ^^ 11) (NewScanner ''MODULE M; END M.''))) = [(10, ''a'')]
   \<and> Pos ((nextCh ^^ 4) (Mark ''a'' ((nextCh ^^ 11) (NewScanner ''MODULE M; END M.'')))) = 14
   \<and> (10::int) + 3 < 14
   \<and> ErrCnt ((nextCh ^^ 4) (Mark ''a'' ((nextCh ^^ 11) (NewScanner ''MODULE M; END M.'')))) = 1
   \<and> sink (Mark ''b'' ((nextCh ^^ 4) (Mark ''a'' ((nextCh ^^ 11) (NewScanner ''MODULE M; END M.'')))))
       = [(10, ''a'')]"
  by (simp add: Mark_sink NewScanner_def Pos_def)

section \<open>Claim C8: registers and frame at the statement boundaries\<close>

lemma CheckRegs_ErrCnt:
  "ErrCnt (gors (CheckRegs g)) =
     ErrCnt (gors g) + (if rh g \<noteq> 0 then 1 else 0) + (if PC g \<ge> maxCode - 40 then 1 else 0)
       + (if frame g \<noteq> 0 then 1 else 0)"
  by (simp add: CheckRegs_def Let_def)

lemma CheckRegs_mono: "ErrCnt (gors g) \<le> ErrCnt (gors (CheckRegs g))"
  by (simp add: CheckRegs_ErrCnt)

lemma statSequence_mono:
  "\<forall>st\<in>set sts. \<forall>g. ErrCnt (gors g) \<le> ErrCnt (gors (st g)) \<Longrightarrow>
     ErrCnt (gors g) \<le> ErrCnt (gors (statSequence sts g))"
proof (induction sts arbitrary: g)
  case Nil
  show ?case by simp
next
  case (Cons st sts)
  have "ErrCnt (gors g) \<le> ErrCnt (gors (st g))"
    using Cons.prems by simp
  also have "\<dots> \<le> ErrCnt (gors (CheckRegs (st g)))"
    by (rule CheckRegs_mono)
  also have "\<dots> \<le> ErrCnt (gors (statSequence sts (CheckRegs (st g))))"
    using Cons.prems by (intro Cons.IH) simp
  finally show ?case by simp
qed

lemma statSequence_boundaries:
  "\<forall>st\<in>set sts. \<forall>g. ErrCnt (gors g) \<le> ErrCnt (gors (st g)) \<Longrightarrow>
     ErrCnt (gors (statSequence sts g)) = ErrCnt (gors g) \<Longrightarrow>
     \<forall>b\<in>set (boundaries sts g). rh b = 0 \<and> frame b = 0 \<and> PC b < maxCode - 40"
proof (induction sts arbitrary: g)
  case Nil
  show ?case by simp
next
  case (Cons st sts)
  let ?b = "st g"
  have mono: "\<forall>st\<in>set sts. \<forall>g. ErrCnt (gors g) \<le> ErrCnt (gors (st g))"
    using Cons.prems(1) by simp
  have a: "ErrCnt (gors g) \<le> ErrCnt (gors ?b)"
    using Cons.prems(1) by simp
  have b: "ErrCnt (gors ?b) \<le> ErrCnt (gors (CheckRegs ?b))"
    by (rule CheckRegs_mono)
  have c: "ErrCnt (gors (CheckRegs ?b)) \<le> ErrCnt (gors (statSequence sts (CheckRegs ?b)))"
    using mono by (rule statSequence_mono)
  have e: "ErrCnt (gors (statSequence sts (CheckRegs ?b))) = ErrCnt (gors g)"
    using Cons.prems(2) by simp
  have same: "ErrCnt (gors (CheckRegs ?b)) = ErrCnt (gors ?b)"
    using a b c e by linarith
  have here: "rh ?b = 0 \<and> frame ?b = 0 \<and> PC ?b < maxCode - 40"
    using same unfolding CheckRegs_ErrCnt by (auto split: if_splits)
  have "ErrCnt (gors (statSequence sts (CheckRegs ?b))) = ErrCnt (gors (CheckRegs ?b))"
    using a b c e by linarith
  then have "\<forall>b\<in>set (boundaries sts (CheckRegs ?b)). rh b = 0 \<and> frame b = 0 \<and> PC b < maxCode - 40"
    by (rule Cons.IH [OF mono])
  then show ?case
    using here by simp
qed

text \<open>
  C8. \<open>CheckRegs\<close> leaves \<open>rh\<close> and \<open>frame\<close> at 0. It reports a register stack that is not
  empty as "Reg Stack" and a frame offset that is not 0 as "frame error", through
  \<open>Mark\<close>: every one of them counts as an error (and is printed under the rule of
  \<open>Mark\<close>). So the error count tells what \<open>CheckRegs\<close> found: in a statement sequence
  whose parts count errors only upwards and that leaves the error count as it was (at 0,
  for a program accepted with zero errors), \<open>rh\<close> and \<open>frame\<close> are 0 at every call of
  \<open>CheckRegs\<close>, that is behind every statement.
\<close>

theorem CheckRegs_boundaries:
  assumes "\<forall>st\<in>set sts. \<forall>g. ErrCnt (gors g) \<le> ErrCnt (gors (st g))"
  shows "rh (CheckRegs g) = 0 \<and> frame (CheckRegs g) = 0
       \<and> gors (CheckRegs g) =
           (if frame g \<noteq> 0 then Mark ''frame error'' else id)
             ((if PC g \<ge> maxCode - 40 then Mark ''program too long'' else id)
                ((if rh g \<noteq> 0 then Mark ''Reg Stack'' else id) (gors g)))
       \<and> ErrCnt (gors (CheckRegs g)) =
           ErrCnt (gors g) + (if rh g \<noteq> 0 then 1 else 0)
             + (if PC g \<ge> maxCode - 40 then 1 else 0) + (if frame g \<noteq> 0 then 1 else 0)
       \<and> (ErrCnt (gors (statSequence sts g0)) = ErrCnt (gors g0) \<longrightarrow>
            (\<forall>b\<in>set (boundaries sts g0). rh b = 0 \<and> frame b = 0))"
proof -
  have "rh (CheckRegs g) = 0 \<and> frame (CheckRegs g) = 0"
    by (simp add: CheckRegs_def Let_def)
  moreover have "gors (CheckRegs g) =
           (if frame g \<noteq> 0 then Mark ''frame error'' else id)
             ((if PC g \<ge> maxCode - 40 then Mark ''program too long'' else id)
                ((if rh g \<noteq> 0 then Mark ''Reg Stack'' else id) (gors g)))"
    by (simp add: CheckRegs_def Let_def)
  moreover note CheckRegs_ErrCnt [of g]
  moreover have "\<forall>b\<in>set (boundaries sts g0). rh b = 0 \<and> frame b = 0"
    if "ErrCnt (gors (statSequence sts g0)) = ErrCnt (gors g0)"
    using statSequence_boundaries [OF assms that] by blast
  ultimately show ?thesis by blast
qed

theorem CheckRegs_boundaries_witness:
  "map (\<lambda>b. (rh b, frame b))
     (boundaries [\<lambda>g. g\<lparr>gors := nextCh (gors g)\<rparr>, \<lambda>g. g\<lparr>PC := PC g + 1\<rparr>]
        (NewGenerator (NewScanner ''x := 1; y := 2''))) = [(0, 0), (0, 0)]
   \<and> rh (CheckRegs ((NewGenerator ((nextCh ^^ 8) (NewScanner ''x := 1; y := 2'')))\<lparr>rh := 2, frame := 4\<rparr>)) = 0
   \<and> frame (CheckRegs ((NewGenerator ((nextCh ^^ 8) (NewScanner ''x := 1; y := 2'')))\<lparr>rh := 2, frame := 4\<rparr>)) = 0
   \<and> ErrCnt (gors (CheckRegs ((NewGenerator ((nextCh ^^ 8) (NewScanner ''x := 1; y := 2'')))\<lparr>rh := 2, frame := 4\<rparr>))) = 2
   \<and> sink (gors (CheckRegs ((NewGenerator ((nextCh ^^ 8) (NewScanner ''x := 1; y := 2'')))\<lparr>rh := 2, frame := 4\<rparr>)))
       = [(7, ''Reg Stack'')]"
  using CheckRegs_boundaries [of "[\<lambda>g. g\<lparr>gors := nextCh (gors g)\<rparr>, \<lambda>g. g\<lparr>PC := PC g + 1\<rparr>]"
      "(NewGenerator ((nextCh ^^ 8) (NewScanner ''x := 1; y := 2'')))\<lparr>rh := 2, frame := 4\<rparr>"
      "NewGenerator (NewScanner ''x := 1; y := 2'')"]
  by (simp add: CheckRegs_def NewGenerator_def NewScanner_def maxCode_def Mark_def Pos_def Let_def)

section \<open>Claim C4: word 0 of a type descriptor\<close>

lemma keeps_refl: "keeps st st"
  by (simp add: keeps_def)

lemma keeps_trans: "keeps a b \<Longrightarrow> keeps b c \<Longrightarrow> keeps a c"
proof -
  assume ab: "keeps a b" and bc: "keeps b c"
  have le: "nat (fst a) \<le> nat (fst b)"
    using ab by (intro nat_mono) (simp add: keeps_def)
  have "take (nat (fst a)) (data (snd c)) = take (nat (fst a)) (take (nat (fst b)) (data (snd c)))"
    using le by (simp add: min_def)
  also have "\<dots> = take (nat (fst a)) (take (nat (fst b)) (data (snd b)))"
    using bc by (simp add: keeps_def)
  also have "\<dots> = take (nat (fst a)) (data (snd b))"
    using le by (simp add: min_def)
  finally show ?thesis
    using ab bc by (simp add: keeps_def)
qed

lemma putData_keeps:
  assumes "putData dcw v g = Some g1" and "length (data g) = nat maxTD"
  shows "keeps (dcw, g) (wrap32 (dcw + 1), g1)"
proof -
  have r: "0 \<le> dcw" "dcw < 160" and g1: "g1 = g\<lparr>data := (data g)[nat dcw := v]\<rparr>"
    using assms by (auto simp: putData_def maxTD_def split: if_splits)
  have "wrap32 (dcw + 1) = dcw + 1"
    using r by (intro wrap32_id) auto
  then show ?thesis
    using r by (simp add: keeps_def g1)
qed

lemma keeps_length: "keeps st st' \<Longrightarrow> length (data (snd st')) = length (data (snd st))"
  by (simp add: keeps_def)

lemma q_keeps:
  "q t st = Some st' \<Longrightarrow> length (data (snd st)) = nat maxTD \<Longrightarrow> keeps st st'"
proof (induction t st arbitrary: st' rule: q.induct)
  case (1 form mno nofpar len dsc sz st)
  then show ?case by (simp add: keeps_refl)
next
  case (2 form mno nofpar len dsc b sz st)
  from "2.prems"(1) obtain dcw g g1 where
    a: "q b st = Some (dcw, g)"
    and b: "putData dcw (wrap32 ((mno * 0x1000 + len) * 0x1000 + dcw - fixOrgT g)) g = Some g1"
    and c: "st' = (wrap32 (dcw + 1), g1\<lparr>fixOrgT := dcw\<rparr>)"
    by (auto simp: bind_eq_Some_conv)
  have k1: "keeps st (dcw, g)"
    using a "2.prems"(2) by (rule "2.IH")
  have "length (data g) = nat maxTD"
    using keeps_length [OF k1] "2.prems"(2) by simp
  from putData_keeps [OF b this] have "keeps (dcw, g) st'"
    by (simp add: keeps_def c)
  with k1 show ?case by (rule keeps_trans)
qed

lemma fill_loop_keeps:
  "fill_loop k st = Some st' \<Longrightarrow> length (data (snd st)) = nat maxTD \<Longrightarrow> keeps st st'"
proof (induction k st arbitrary: st' rule: fill_loop.induct)
  case (1 k st)
  show ?case
  proof (cases "k < 3")
    case False
    then show ?thesis
      using "1.prems" by (subst (asm) fill_loop.simps) (simp add: keeps_refl)
  next
    case True
    from "1.prems"(1) obtain g1 where
      a: "putData (fst st) (- 1) (snd st) = Some g1"
      and b: "fill_loop (k + 1) (wrap32 (fst st + 1), g1) = Some st'"
      using True by (subst (asm) fill_loop.simps) (auto simp: bind_eq_Some_conv)
    have k1: "keeps st (wrap32 (fst st + 1), g1)"
      using putData_keeps [OF a "1.prems"(2)] by simp
    have "length (data (snd (wrap32 (fst st + 1), g1))) = nat maxTD"
      using keeps_length [OF k1] "1.prems"(2) by simp
    from "1.IH" [OF True a b this] k1 show ?thesis
      by (rule keeps_trans [rotated])
  qed
qed

lemma findPtrFlds_keeps:
  "findPtrFlds ty off st = Some st' \<Longrightarrow> length (data (snd st)) = nat maxTD \<Longrightarrow> keeps st st'"
  "findPtrFlds_fields flds off st = Some st' \<Longrightarrow> length (data (snd st)) = nat maxTD \<Longrightarrow> keeps st st'"
  "findPtrFlds_elems base s i n off st = Some st' \<Longrightarrow> length (data (snd st)) = nat maxTD \<Longrightarrow> keeps st st'"
proof (induction ty off st and flds off st and base s i n off st arbitrary: st' and st' and st'
       rule: findPtrFlds_findPtrFlds_fields_findPtrFlds_elems.induct)
  case (1 off st)
  then show ?case by simp
next
  case (2 form mno nofpar len dsc base sz off st)
  show ?case
  proof (cases "form = FormPointer \<or> form = FormNilTyp")
    case True
    from "2.prems"(1) True obtain g1 where
      a: "putData (fst st) off (snd st) = Some g1" and b: "st' = (wrap32 (fst st + 1), g1)"
      by (auto simp: bind_eq_Some_conv)
    show ?thesis
      using putData_keeps [OF a "2.prems"(2)] b by simp
  next
    case False
    show ?thesis
    proof (cases "form = FormRecord")
      case True
      then show ?thesis
        using False "2.prems" "2.IH"(1) by simp
    next
      case notrec: False
      show ?thesis
      proof (cases "form = FormArray")
        case True
        then obtain b where b: "base = Some b"
          using False notrec "2.prems"(1) by (cases base) simp_all
        show ?thesis
          using False notrec True b "2.prems" "2.IH"(2) by simp
      next
        case False
        then show ?thesis
          using \<open>\<not> (form = FormPointer \<or> form = FormNilTyp)\<close> notrec "2.prems"(1)
          by (simp add: keeps_refl)
      qed
    qed
  qed
next
  case (3 off st)
  then show ?case by (simp add: keeps_refl)
next
  case (4 name val ty flds off st)
  from "4.prems"(1) obtain st1 where
    a: "findPtrFlds ty (wrap32 (val + off)) st = Some st1"
    and b: "findPtrFlds_fields flds off st1 = Some st'"
    by (auto simp: bind_eq_Some_conv)
  have k1: "keeps st st1"
    using a "4.prems"(2) by (rule "4.IH"(1))
  have "length (data (snd st1)) = nat maxTD"
    using keeps_length [OF k1] "4.prems"(2) by simp
  from "4.IH"(2) [OF a b this] k1 show ?case
    by (rule keeps_trans [rotated])
next
  case (5 base s i off st)
  then show ?case by (simp add: keeps_refl)
next
  case (6 base s i n off st)
  from "6.prems"(1) obtain st1 where
    a: "findPtrFlds base (wrap32 (i * s + off)) st = Some st1"
    and b: "findPtrFlds_elems base s (i + 1) n off st1 = Some st'"
    by (auto simp: bind_eq_Some_conv)
  have k1: "keeps st st1"
    using a "6.prems"(2) by (rule "6.IH"(1))
  have "length (data (snd st1)) = nat maxTD"
    using keeps_length [OF k1] "6.prems"(2) by simp
  from "6.IH"(2) [OF a b this] k1 show ?case
    by (rule keeps_trans [rotated])
qed


lemma BuildTD_data0:
  assumes "BuildTD t dc g = Some (t', dc', g')" and "length (data g) = nat maxTD"
  shows "data g' ! nat (dc sdiv 4) =
           (if Size t \<le> 24 then 32 else if Size t \<le> 56 then 64 else if Size t \<le> 120 then 128
            else wrap32 (wrap32 (Size t + 263) sdiv 256 * 256))
         \<and> t' = setLen dc t"
proof -
  let ?dcw = "dc sdiv 4"
  let ?s1 = "if Size t \<le> 24 then 32 else if Size t \<le> 56 then 64 else if Size t \<le> 120 then 128
             else wrap32 (wrap32 (Size t + 263) sdiv 256 * 256)"
  let ?t1 = "setLen dc t"
  define s1 where "s1 = ?s1"
  define t1 where "t1 = ?t1"
  define ext where "ext g1 =
      (if NOfPar t1 > 3
       then Some (wrap32 (?dcw + 1), g1\<lparr>gors := Mark ''ext level too large'' (gors g1)\<rparr>)
       else Option.bind (q t1 (wrap32 (?dcw + 1), g1)) (fill_loop (NOfPar t1)))"
    for g1 :: Generator
  define fin where "fin g5 =
      (if tdx g5 \<ge> maxTD
       then g5\<lparr>gors := Mark ''too many record types'' (gors g5), tdx := 0\<rparr> else g5)"
    for g5 :: Generator
  have eq: "BuildTD t dc g =
      Option.bind (putData ?dcw s1 g) (\<lambda>g1.
      Option.bind (ext g1) (\<lambda>st2.
      Option.bind (findPtrFlds (Some t1) 0 st2) (\<lambda>(dcw3, g3).
      Option.bind (putData dcw3 (- 1) g3) (\<lambda>g4.
        Some (t1, wrap32 (wrap32 (dcw3 + 1) * 4), fin (g4\<lparr>tdx := wrap32 (dcw3 + 1)\<rparr>))))))"
    unfolding BuildTD_def Let_def s1_def t1_def ext_def fin_def by (rule refl)
  from assms(1) [unfolded eq] obtain g1 st2 dcw3 g3 g4 where
    a0: "putData ?dcw s1 g = Some g1"
    and b0: "ext g1 = Some st2"
    and c0: "findPtrFlds (Some t1) 0 st2 = Some (dcw3, g3)"
    and d: "putData dcw3 (- 1) g3 = Some g4"
    and e0: "t' = t1"
    and f0: "g' = fin (g4\<lparr>tdx := wrap32 (dcw3 + 1)\<rparr>)"
    by (auto simp: bind_eq_Some_conv)
  have a: "putData ?dcw ?s1 g = Some g1"
    using a0 unfolding s1_def .
  have b: "(if NOfPar ?t1 > 3
             then Some (wrap32 (?dcw + 1), g1\<lparr>gors := Mark ''ext level too large'' (gors g1)\<rparr>)
             else Option.bind (q ?t1 (wrap32 (?dcw + 1), g1)) (fill_loop (NOfPar ?t1))) = Some st2"
    using b0 unfolding ext_def t1_def .
  have c: "findPtrFlds (Some ?t1) 0 st2 = Some (dcw3, g3)"
    using c0 unfolding t1_def .
  have e: "t' = ?t1"
    using e0 unfolding t1_def .
  have f: "data g' = data g4"
    unfolding f0 fin_def by simp
  have r: "0 \<le> ?dcw" "?dcw < 160" and g1: "g1 = g\<lparr>data := (data g)[nat ?dcw := ?s1]\<rparr>"
    using a assms(2) by (auto simp: putData_def maxTD_def split: if_splits)
  have k1: "keeps (?dcw, g) (wrap32 (?dcw + 1), g1)"
    using a assms(2) by (rule putData_keeps)
  have w: "wrap32 (?dcw + 1) = ?dcw + 1"
    using r by (intro wrap32_id) auto
  have l1: "length (data g1) = nat maxTD"
    using keeps_length [OF k1] assms(2) by simp
  have k2: "keeps (wrap32 (?dcw + 1), g1) st2"
  proof (cases "NOfPar ?t1 > 3")
    case True
    then show ?thesis using b by (auto simp: keeps_def)
  next
    case False
    then obtain st where q: "q ?t1 (wrap32 (?dcw + 1), g1) = Some st"
      and fl: "fill_loop (NOfPar ?t1) st = Some st2"
      using b by (auto simp: bind_eq_Some_conv)
    have kq: "keeps (wrap32 (?dcw + 1), g1) st"
      using q l1 by (intro q_keeps) simp_all
    have "length (data (snd st)) = nat maxTD"
      using keeps_length [OF kq] l1 by simp
    from fill_loop_keeps [OF fl this] kq show ?thesis
      by (rule keeps_trans [rotated])
  qed
  have l2: "length (data (snd st2)) = nat maxTD"
    using keeps_length [OF k2] l1 by simp
  have k3: "keeps st2 (dcw3, g3)"
    using c l2 by (rule findPtrFlds_keeps(1))
  have l3: "length (data g3) = nat maxTD"
    using keeps_length [OF k3] l2 by simp
  have k4: "keeps (dcw3, g3) (wrap32 (dcw3 + 1), g4)"
    using d l3 by (rule putData_keeps)
  have "keeps (wrap32 (?dcw + 1), g1) (wrap32 (dcw3 + 1), g4)"
    using k2 k3 k4 by (blast intro: keeps_trans)
  then have "take (nat (?dcw + 1)) (data g4) = take (nat (?dcw + 1)) (data g1)"
    unfolding w by (simp add: keeps_def)
  then have "take (nat (?dcw + 1)) (data g4) ! nat ?dcw = take (nat (?dcw + 1)) (data g1) ! nat ?dcw"
    by simp
  then have "data g4 ! nat ?dcw = data g1 ! nat ?dcw"
    using r by simp
  also have "\<dots> = ?s1"
    using r assms(2) unfolding g1 by (simp add: maxTD_def)
  finally show ?thesis
    using e f by simp
qed

lemma round256:
  assumes "120 < (s::int)" and "s \<le> 2147483384"
  shows "wrap32 (wrap32 (s + 263) sdiv 256 * 256) = 256 * ((s + 263) div 256)"
proof -
  have a: "wrap32 (s + 263) = s + 263"
    using assms by (intro wrap32_id) auto
  have b: "(s + 263) sdiv 256 = (s + 263) div 256"
    using assms by (simp add: signed_divide_int_def sgn_if)
  have "0 \<le> (s + 263) div 256" "(s + 263) div 256 * 256 \<le> s + 263"
    using assms by simp_all
  then have "wrap32 ((s + 263) div 256 * 256) = (s + 263) div 256 * 256"
    using assms by (intro wrap32_id) auto
  then show ?thesis
    unfolding a b by simp
qed

lemma round256_least:
  assumes "120 < (s::int)"
  shows "s + 8 \<le> 256 * ((s + 263) div 256)"
    and "s + 8 \<le> n \<Longrightarrow> 256 dvd n \<Longrightarrow> 256 * ((s + 263) div 256) \<le> n"
proof -
  define k where "k = (s + 263) div 256"
  define r where "r = (s + 263) mod 256"
  have e: "256 * k + r = s + 263"
    unfolding k_def r_def by (rule mult_div_mod_eq)
  have r: "0 \<le> r" "r < 256"
    unfolding r_def by simp_all
  show "s + 8 \<le> 256 * ((s + 263) div 256)"
    unfolding k_def [symmetric] using e r by linarith
  assume n: "s + 8 \<le> n" and "256 dvd n"
  then obtain m where m: "n = 256 * m"
    by (auto simp: dvd_def)
  have "256 * k < 256 * m + 256"
    using e r n unfolding m by linarith
  then have "256 * k < 256 * (m + 1)"
    by simp
  then have "k < m + 1"
    by simp
  then show "256 * ((s + 263) div 256) \<le> n"
    unfolding k_def [symmetric] m by simp
qed

text \<open>
  C4 (as amended). When \<open>BuildTD\<close> builds the descriptor of a record type of size
  \<open>Size t\<close> (not negative, and small enough for \<open>Size t + 263\<close> to be an \<open>int32\<close>) at the
  address \<open>dc\<close>, word 0 of the descriptor, which is the word \<open>dc / 4\<close> of \<open>data\<close>, holds
  the size plus 8 rounded up: it is the least number not below \<open>Size t + 8\<close> among 32,
  64, 128 and the multiples of 256. No later step of \<open>BuildTD\<close> overwrites it. The type
  gets \<open>dc\<close> as its \<open>Len\<close>.
\<close>

theorem BuildTD_word0:
  assumes "BuildTD t dc g = Some (t', dc', g')" and "length (data g) = nat maxTD"
    and "0 \<le> Size t" and "Size t \<le> 2147483384"
  shows "Size t + 8 \<le> data g' ! nat (dc sdiv 4)
       \<and> (data g' ! nat (dc sdiv 4) \<in> {32, 64, 128} \<or> 256 dvd data g' ! nat (dc sdiv 4))
       \<and> (\<forall>n. Size t + 8 \<le> n \<and> (n \<in> {32, 64, 128} \<or> 256 dvd n)
              \<longrightarrow> data g' ! nat (dc sdiv 4) \<le> n)
       \<and> Len t' = dc"
proof -
  let ?w = "data g' ! nat (dc sdiv 4)"
  note d = BuildTD_data0 [OF assms(1,2)]
  have len: "Len t' = dc"
    using d by (simp add: setLen_def)
  have pos: "n \<ge> 256" if "256 dvd n" "Size t + 8 \<le> n" for n :: int
  proof -
    from that(1) obtain m where "n = 256 * m" by (auto simp: dvd_def)
    then show ?thesis using that(2) assms(3) by (cases "m \<le> 0") auto
  qed
  show ?thesis
  proof (cases "Size t \<le> 120")
    case True
    then have w: "?w = (if Size t \<le> 24 then 32 else if Size t \<le> 56 then 64 else 128)"
      using d by simp
    have 1: "Size t + 8 \<le> ?w" "?w \<in> {32, 64, 128}"
      unfolding w using True by auto
    have 2: "?w \<le> n" if "Size t + 8 \<le> n" "n \<in> {32, 64, 128} \<or> 256 dvd n" for n
      using that pos [of n] unfolding w by auto
    show ?thesis
      using 1 2 len by blast
  next
    case False
    then have big: "120 < Size t" by simp
    have w: "?w = 256 * ((Size t + 263) div 256)"
      using d False round256 [OF big assms(4)] by simp
    have 1: "Size t + 8 \<le> ?w" "256 dvd ?w"
      unfolding w using round256_least(1) [OF big] by simp_all
    have 2: "?w \<le> n" if "Size t + 8 \<le> n" "n \<in> {32, 64, 128} \<or> 256 dvd n" for n
    proof -
      have "256 dvd n" using that big by auto
      then show ?thesis
        unfolding w using round256_least(2) [OF big that(1)] by simp
    qed
    show ?thesis
      using 1 2 len by blast
  qed
qed

theorem BuildTD_word0_witness:
  "\<exists>t' dc' g'. BuildTD (recType 2) 0 (NewGenerator (NewScanner [])) = Some (t', dc', g')
     \<and> Size (recType 2) = 8 \<and> data g' ! 0 = 32 \<and> Len t' = 0"
proof -
  have "map_option (\<lambda>(t', dc', g'). dc') (BuildTD (recType 2) 0 (NewGenerator (NewScanner [])))
          = Some 20"
    by code_simp
  then obtain t' dc' g' where
    r: "BuildTD (recType 2) 0 (NewGenerator (NewScanner [])) = Some (t', dc', g')"
    by auto
  have l: "length (data (NewGenerator (NewScanner []))) = nat maxTD"
    by (simp add: NewGenerator_def)
  have s: "Size (recType 2) = 8"
    by (simp add: recType_def)
  note w = BuildTD_word0 [OF r l, unfolded s]
  have z: "(0::int) sdiv 4 = 0"
    by (simp add: signed_divide_int_def)
  have a: "16 \<le> data g' ! 0" and b: "data g' ! 0 \<in> {32, 64, 128} \<or> 256 dvd data g' ! 0"
    and c: "data g' ! 0 \<le> 32" and d: "Len t' = 0"
    using w unfolding z by auto
  have "data g' ! 0 = 32"
    using a b c by (auto simp: dvd_def)
  then show ?thesis
    using r s d by blast
qed

text \<open>
  C4 as stated fails for a record of size 28: rounded up to the nearest of 32, 64 and 128
  the size gives 32, but word 0 of the descriptor is 64.
\<close>

theorem BuildTD_size_28_counterexample:
  "Size (recType 7) = 28
   \<and> map_option (\<lambda>(t', dc', g'). take 5 (data g'))
       (BuildTD (recType 7) 0 (NewGenerator (NewScanner []))) = Some [64, - 1, - 1, - 1, - 1]"
  by code_simp

end
